theory Spec2Isabelle
  imports Main "HOL-Library.Word" "HOL-Library.Monad_Syntax"
begin

unbundle bit_operations_syntax

section \<open>Go values used by both packages\<close>

type_synonym byte = "8 word"
type_synonym uint32 = "32 word"
type_synonym uint64 = "64 word"

text \<open>
  A run-time panic of Go (slice bounds out of range, index out of range) is the value
  \<open>None\<close>; a call that completes is \<open>Some\<close> of what it leaves behind. Go's \<open>int\<close> is
  \<open>int\<close>: the lengths and offsets of this program stay far below the width of the
  machine integer, and modelling them as \<open>int\<close> keeps a negative bound visible.
\<close>

text \<open>\<open>s[lo:hi]\<close> on a slice whose capacity is its length.\<close>

definition slice :: "'a list \<Rightarrow> int \<Rightarrow> int \<Rightarrow> 'a list option" where
  "slice s lo hi =
     (if 0 \<le> lo \<and> lo \<le> hi \<and> hi \<le> int (length s)
      then Some (take (nat (hi - lo)) (drop (nat lo) s))
      else None)"

text \<open>
  \<open>copy(dst[lo:hi], src)\<close>: the slice expression panics when its bounds are out of range;
  otherwise \<open>min (hi - lo) (len src)\<close> elements of \<open>src\<close> overwrite \<open>dst\<close> from \<open>lo\<close> on.
  The result is the whole of \<open>dst\<close> after the call.
\<close>

definition copy_go :: "'a list \<Rightarrow> int \<Rightarrow> int \<Rightarrow> 'a list \<Rightarrow> 'a list option" where
  "copy_go dst lo hi src =
     (if 0 \<le> lo \<and> lo \<le> hi \<and> hi \<le> int (length dst)
      then (let n = min (nat (hi - lo)) (length src)
            in Some (take (nat lo) dst @ take n src @ drop (nat lo + n) dst))
      else None)"

text \<open>\<open>a[i] = v\<close> with the index check of Go.\<close>

definition store :: "'a list \<Rightarrow> int \<Rightarrow> 'a \<Rightarrow> 'a list option" where
  "store a i v = (if 0 \<le> i \<and> i < int (length a) then Some (a[nat i := v]) else None)"

text \<open>
  \<open>binary.LittleEndian.Uint64\<close>, \<open>Uint32\<close>, \<open>PutUint64\<close> and \<open>PutUint32\<close> of package
  \<open>encoding/binary\<close>. The readers index \<open>b[0]\<close> to \<open>b[7]\<close> (or \<open>b[3]\<close>); every call of this
  program passes a slice of a fixed-size array that is long enough.
\<close>

definition Uint64 :: "byte list \<Rightarrow> uint64" where
  "Uint64 b =
     ucast (b ! 0) OR push_bit 8 (ucast (b ! 1)) OR push_bit 16 (ucast (b ! 2))
     OR push_bit 24 (ucast (b ! 3)) OR push_bit 32 (ucast (b ! 4))
     OR push_bit 40 (ucast (b ! 5)) OR push_bit 48 (ucast (b ! 6))
     OR push_bit 56 (ucast (b ! 7))"

definition Uint32 :: "byte list \<Rightarrow> uint32" where
  "Uint32 b =
     ucast (b ! 0) OR push_bit 8 (ucast (b ! 1)) OR push_bit 16 (ucast (b ! 2))
     OR push_bit 24 (ucast (b ! 3))"

definition PutUint64 :: "uint64 \<Rightarrow> byte list" where
  "PutUint64 v =
     [ucast v, ucast (drop_bit 8 v), ucast (drop_bit 16 v), ucast (drop_bit 24 v),
      ucast (drop_bit 32 v), ucast (drop_bit 40 v), ucast (drop_bit 48 v),
      ucast (drop_bit 56 v)]"

definition PutUint32 :: "uint32 \<Rightarrow> byte list" where
  "PutUint32 v =
     [ucast v, ucast (drop_bit 8 v), ucast (drop_bit 16 v), ucast (drop_bit 24 v)]"

text \<open>
  The struct \<open>digest\<close> of both packages, over the word type of the variant. The fixed-size
  arrays are lists; \<open>key\<close> is a slice, \<open>None\<close> being Go's \<open>nil\<close>. The last field,
  \<open>ncompress\<close>, is not a field of the Go struct: it is an instrumentation counter that
  \<open>compress\<close> advances by one, so that the number of compressions can be stated. Nothing
  reads it.
\<close>

record 'w digest =
  h :: "'w list"
  t :: "'w list"
  f :: "'w list"
  buf :: "byte list"
  buflen :: int
  key :: "byte list option"
  ncompress :: nat

text \<open>\<open>len(d.key)\<close>: the length of a nil slice is 0.\<close>

definition keylen_of :: "byte list option \<Rightarrow> int" where
  "keylen_of k = (case k of None \<Rightarrow> 0 | Some bs \<Rightarrow> int (length bs))"

text \<open>The bytes of a slice; a nil slice has none.\<close>

definition bytes_of :: "byte list option \<Rightarrow> byte list" where
  "bytes_of k = (case k of None \<Rightarrow> [] | Some bs \<Rightarrow> bs)"

text \<open>The loop of \<open>Sum\<close> that clears the buffer: \<open>a[i + start] = 0\<close> for \<open>i\<close> from 0 below \<open>j\<close>.\<close>

definition zero_tail :: "byte list \<Rightarrow> int \<Rightarrow> int \<Rightarrow> byte list option" where
  "zero_tail a start j =
     fold (\<lambda>i r. case r of None \<Rightarrow> None | Some a' \<Rightarrow> store a' (int i + start) 0)
       [0..<nat j] (Some a)"

text \<open>The Go interface value \<open>error\<close>: \<open>None\<close> is \<open>nil\<close>.\<close>

type_synonym error = "string option"

section \<open>Package blake2b\<close>

definition blake2b_BlockSize :: int where
  "blake2b_BlockSize = 128"

definition blake2b_KeySize :: int where
  "blake2b_KeySize = 64"

definition blake2b_iv :: "uint64 list" where
  "blake2b_iv =
     [0x6a09e667f3bcc908, 0xbb67ae8584caa73b,
      0x3c6ef372fe94f82b, 0xa54ff53a5f1d36f1,
      0x510e527fade682d1, 0x9b05688c2b3e6c1f,
      0x1f83d9abfb41bd6b, 0x5be0cd19137e2179]"

definition blake2b_sigma :: "nat list list" where
  "blake2b_sigma =
     [[0, 1, 2, 3, 4, 5, 6, 7, 8, 9, 10, 11, 12, 13, 14, 15],
      [14, 10, 4, 8, 9, 15, 13, 6, 1, 12, 0, 2, 11, 7, 5, 3],
      [11, 8, 12, 0, 5, 2, 15, 13, 10, 14, 3, 6, 7, 1, 9, 4],
      [7, 9, 3, 1, 13, 12, 11, 14, 2, 6, 5, 10, 4, 0, 15, 8],
      [9, 0, 5, 7, 2, 4, 10, 15, 14, 1, 11, 12, 6, 8, 3, 13],
      [2, 12, 6, 10, 0, 11, 8, 3, 4, 13, 7, 5, 15, 14, 1, 9],
      [12, 5, 1, 15, 14, 13, 4, 10, 0, 7, 6, 3, 9, 2, 8, 11],
      [13, 11, 7, 14, 12, 1, 3, 9, 5, 0, 15, 4, 8, 6, 2, 10],
      [6, 15, 14, 9, 11, 3, 0, 8, 12, 2, 13, 7, 1, 4, 10, 5],
      [10, 2, 8, 4, 7, 6, 1, 5, 15, 11, 9, 14, 3, 12, 13, 0],
      [0, 1, 2, 3, 4, 5, 6, 7, 8, 9, 10, 11, 12, 13, 14, 15],
      [14, 10, 4, 8, 9, 15, 13, 6, 1, 12, 0, 2, 11, 7, 5, 3]]"

text \<open>
  The closure \<open>rotr64\<close> of \<open>compress\<close>. Its count \<open>c\<close> has Go's type \<open>uint\<close>, taken as 64
  bits wide, so \<open>64 - c\<close> wraps; a shift by the width or more gives 0, which is what
  \<open>push_bit\<close> and \<open>drop_bit\<close> do on a word.
\<close>

definition rotr64 :: "uint64 \<Rightarrow> uint64 \<Rightarrow> uint64" where
  "rotr64 w c = drop_bit (unat c) w OR push_bit (unat (64 - c)) w"

text \<open>
  The closure \<open>G\<close> of \<open>compress\<close>: it reads the message words \<open>m\<close> and updates the work
  vector \<open>v\<close> in place, so \<open>v\<close> is passed in and returned.
\<close>

definition blake2b_G ::
  "uint64 list \<Rightarrow> nat \<Rightarrow> nat \<Rightarrow> nat \<Rightarrow> nat \<Rightarrow> nat \<Rightarrow> nat \<Rightarrow> uint64 list \<Rightarrow> uint64 list" where
  "blake2b_G m r i a b c d v0 =
     (let v = v0[a := v0 ! a + v0 ! b + m ! (blake2b_sigma ! r ! (2 * i + 0))];
          v = v[d := rotr64 (v ! d XOR v ! a) 32];
          v = v[c := v ! c + v ! d];
          v = v[b := rotr64 (v ! b XOR v ! c) 24];
          v = v[a := v ! a + v ! b + m ! (blake2b_sigma ! r ! (2 * i + 1))];
          v = v[d := rotr64 (v ! d XOR v ! a) 16];
          v = v[c := v ! c + v ! d];
          v = v[b := rotr64 (v ! b XOR v ! c) 63]
      in v)"

text \<open>The body of the round loop of \<open>compress\<close>, for round \<open>i\<close>.\<close>

definition blake2b_round :: "uint64 list \<Rightarrow> nat \<Rightarrow> uint64 list \<Rightarrow> uint64 list" where
  "blake2b_round m i v0 =
     (let v = blake2b_G m i 0 0 4 8 12 v0;
          v = blake2b_G m i 1 1 5 9 13 v;
          v = blake2b_G m i 2 2 6 10 14 v;
          v = blake2b_G m i 3 3 7 11 15 v;
          v = blake2b_G m i 4 0 5 10 15 v;
          v = blake2b_G m i 5 1 6 11 12 v;
          v = blake2b_G m i 6 2 7 8 13 v;
          v = blake2b_G m i 7 3 4 9 14 v
      in v)"

text \<open>The message words and the work vector as \<open>compress\<close> builds them.\<close>

definition blake2b_m :: "uint64 digest \<Rightarrow> uint64 list" where
  "blake2b_m d = map (\<lambda>i. Uint64 (drop (i * 8) (buf d))) [0..<16]"

definition blake2b_v_init :: "uint64 digest \<Rightarrow> uint64 list" where
  "blake2b_v_init d =
     (let v = replicate 16 0;
          v = fold (\<lambda>i v. v[i := h d ! i]) [0..<8] v;
          v = v[8 := blake2b_iv ! 0];
          v = v[9 := blake2b_iv ! 1];
          v = v[10 := blake2b_iv ! 2];
          v = v[11 := blake2b_iv ! 3];
          v = v[12 := t d ! 0 XOR blake2b_iv ! 4];
          v = v[13 := t d ! 1 XOR blake2b_iv ! 5];
          v = v[14 := f d ! 0 XOR blake2b_iv ! 6];
          v = v[15 := f d ! 1 XOR blake2b_iv ! 7]
      in v)"

definition blake2b_compress :: "uint64 digest \<Rightarrow> uint64 digest" where
  "blake2b_compress d =
     (let m = blake2b_m d;
          v = blake2b_v_init d;
          v = fold (blake2b_round m) [0..<12] v;
          hh = fold (\<lambda>i hh. hh[i := hh ! i XOR v ! i XOR v ! (i + 8)]) [0..<8] (h d)
      in d\<lparr>h := hh, ncompress := ncompress d + 1\<rparr>)"

definition blake2b_incrementCounter :: "uint64 digest \<Rightarrow> uint64 \<Rightarrow> uint64 digest" where
  "blake2b_incrementCounter d inc =
     (let d = d\<lparr>t := (t d)[0 := t d ! 0 + inc]\<rparr>
      in if t d ! 0 < inc then d\<lparr>t := (t d)[1 := t d ! 1 - 1]\<rparr> else d)"

text \<open>
  The loop of \<open>Write\<close>, with the loop variables \<open>offset\<close> and \<open>inlen\<close> as arguments. In
  the first branch the source copies from \<open>buf[:fill]\<close>.
\<close>

function blake2b_Write_loop ::
  "uint64 digest \<Rightarrow> byte list \<Rightarrow> int \<Rightarrow> int \<Rightarrow> uint64 digest option" where
  "blake2b_Write_loop d b offset inlen =
     (if inlen > 0 then
        (let left = buflen d; fill = 2 * blake2b_BlockSize - left in
         if inlen > fill then
           (case slice b 0 fill of None \<Rightarrow> None | Some src \<Rightarrow>
            (case copy_go (buf d) left (int (length (buf d))) src of None \<Rightarrow> None | Some nb \<Rightarrow>
              (let d = d\<lparr>buf := nb\<rparr>;
                   d = d\<lparr>buflen := buflen d + fill\<rparr>;
                   d = blake2b_incrementCounter d (word_of_int blake2b_BlockSize);
                   d = blake2b_compress d
               in (case slice (buf d) blake2b_BlockSize (int (length (buf d))) of None \<Rightarrow> None | Some hi \<Rightarrow>
                   (case copy_go (buf d) 0 blake2b_BlockSize hi of None \<Rightarrow> None | Some nb \<Rightarrow>
                     blake2b_Write_loop (d\<lparr>buf := nb, buflen := buflen d - blake2b_BlockSize\<rparr>)
                       b (offset + fill) (inlen - fill))))))
         else
           (case slice b offset (int (length b)) of None \<Rightarrow> None | Some src \<Rightarrow>
            (case copy_go (buf d) left (int (length (buf d))) src of None \<Rightarrow> None | Some nb \<Rightarrow>
              blake2b_Write_loop (d\<lparr>buf := nb, buflen := buflen d + inlen\<rparr>)
                b (offset + inlen) (inlen - inlen))))
      else Some d)"
  by pat_completeness auto

definition blake2b_Write ::
  "uint64 digest \<Rightarrow> byte list \<Rightarrow> (uint64 digest \<times> int \<times> error) option" where
  "blake2b_Write d b =
     (case blake2b_Write_loop d b 0 (int (length b)) of
        None \<Rightarrow> None
      | Some d' \<Rightarrow> Some (d', 0, None))"

definition blake2b_Sum ::
  "uint64 digest \<Rightarrow> byte list \<Rightarrow> (uint64 digest \<times> byte list) option" where
  "blake2b_Sum d0 b =
     (case (if buflen d0 > blake2b_BlockSize then
              (let d = blake2b_incrementCounter d0 (word_of_int blake2b_BlockSize);
                   d = blake2b_compress d;
                   d = d\<lparr>buflen := buflen d - blake2b_BlockSize\<rparr>
               in (case slice (buf d) blake2b_BlockSize (int (length (buf d))) of None \<Rightarrow> None | Some hi \<Rightarrow>
                   (case copy_go (buf d) 0 (buflen d) hi of None \<Rightarrow> None | Some nb \<Rightarrow>
                      Some (d\<lparr>buf := nb\<rparr>))))
            else Some d0) of
        None \<Rightarrow> None
      | Some d \<Rightarrow>
         (let d = blake2b_incrementCounter d (word_of_int (buflen d));
              d = d\<lparr>f := (f d)[0 := 0xffffffffffffffff]\<rparr>;
              j = 2 * blake2b_BlockSize - buflen d
          in (case zero_tail (buf d) (buflen d) j of None \<Rightarrow> None | Some nb \<Rightarrow>
               (let d = d\<lparr>buf := nb\<rparr>;
                    d = blake2b_compress d;
                    buffer = concat (map (\<lambda>i. PutUint64 (h d ! i)) [0..<8])
                in Some (d, b @ buffer)))))"

definition blake2b_Reset :: "uint64 digest \<Rightarrow> uint64 digest option" where
  "blake2b_Reset d0 =
     (let keylen = keylen_of (key d0);
          keylen = (if keylen > blake2b_KeySize then blake2b_KeySize else keylen);
          p = replicate (nat blake2b_BlockSize) (0 :: byte);
          p = p[0 := 64];
          p = p[1 := word_of_int keylen];
          p = p[2 := 1];
          p = p[3 := 1];
          d = d0\<lparr>f := (f d0)[0 := 0]\<rparr>;
          d = d\<lparr>f := (f d)[1 := 0]\<rparr>;
          d = d\<lparr>t := (t d)[0 := 0]\<rparr>;
          d = d\<lparr>t := (t d)[1 := 0]\<rparr>;
          d = d\<lparr>buflen := 0\<rparr>;
          d = d\<lparr>h := fold (\<lambda>i hh. hh[i := blake2b_iv ! i XOR Uint64 (drop (i * 8) p)])
                       [0..<8] (h d)\<rparr>
      in if keylen > 0 then
           (let block = replicate (nat blake2b_BlockSize) (0 :: byte) in
            case slice (bytes_of (key d)) 0 keylen of None \<Rightarrow> None | Some k \<Rightarrow>
            (case copy_go block 0 (int (length block)) k of None \<Rightarrow> None | Some block \<Rightarrow>
              (case blake2b_Write d block of None \<Rightarrow> None | Some (d', _) \<Rightarrow> Some d')))
         else Some d)"

text \<open>\<open>new(digest)\<close>: every field has its zero value.\<close>

definition blake2b_new_digest :: "uint64 digest" where
  "blake2b_new_digest =
     \<lparr>h = replicate 8 0, t = replicate 2 0, f = replicate 2 0,
      buf = replicate (nat (2 * blake2b_BlockSize)) 0, buflen = 0, key = None,
      ncompress = 0\<rparr>"

definition blake2b_New :: "uint64 digest option" where
  "blake2b_New = blake2b_Reset blake2b_new_digest"

definition blake2b_NewKeyed :: "byte list option \<Rightarrow> uint64 digest option" where
  "blake2b_NewKeyed k = blake2b_Reset (blake2b_new_digest\<lparr>key := k\<rparr>)"

text \<open>
  The arrays of the struct have their declared sizes, and \<open>buflen\<close> stays within the
  buffer between calls.
\<close>

definition blake2b_shape :: "uint64 digest \<Rightarrow> bool" where
  "blake2b_shape d \<longleftrightarrow>
     length (h d) = 8 \<and> length (t d) = 2 \<and> length (f d) = 2 \<and> length (buf d) = 256"

definition blake2b_inv :: "uint64 digest \<Rightarrow> bool" where
  "blake2b_inv d \<longleftrightarrow>
     blake2b_shape d \<and> 0 \<le> buflen d \<and> buflen d \<le> 2 * blake2b_BlockSize"

text \<open>
  A caller's use of an engine \<open>e\<close> as returned by \<open>New\<close> or \<open>NewKeyed\<close>: one \<open>Write\<close> for
  each chunk in turn, then \<open>Sum(nil)\<close>. A panic in any call ends the run.
\<close>

fun blake2b_Writes :: "uint64 digest \<Rightarrow> byte list list \<Rightarrow> uint64 digest option" where
  "blake2b_Writes d [] = Some d"
| "blake2b_Writes d (b # bs) =
     (case blake2b_Write d b of None \<Rightarrow> None | Some (d', _) \<Rightarrow> blake2b_Writes d' bs)"

definition blake2b_run :: "uint64 digest option \<Rightarrow> byte list list \<Rightarrow> byte list option" where
  "blake2b_run e bs =
     (case e of None \<Rightarrow> None | Some d \<Rightarrow>
      (case blake2b_Writes d bs of None \<Rightarrow> None | Some d' \<Rightarrow>
       (case blake2b_Sum d' [] of None \<Rightarrow> None | Some (_, out) \<Rightarrow> Some out)))"

text \<open>
  Three derived forms, used to state what \<open>Write\<close> and \<open>Sum\<close> leave behind. \<open>blake2b_flush\<close>
  is the first branch of the loop of \<open>Write\<close> once \<open>src\<close>, which fills the buffer, has been
  copied in; \<open>blake2b_last_block\<close> is the conditional at the head of \<open>Sum\<close>;
  \<open>blake2b_final\<close> is the engine that \<open>Sum\<close> leaves. The lemmas \<open>blake2b_Write_loop_flush\<close> and
  \<open>blake2b_Sum_eq\<close> relate them to the functions above.
\<close>

definition blake2b_flush :: "uint64 digest \<Rightarrow> byte list \<Rightarrow> uint64 digest" where
  "blake2b_flush d src =
     (let d4 = blake2b_compress (blake2b_incrementCounter
                 (d\<lparr>buf := take (nat (buflen d)) (buf d) @ src, buflen := 2 * blake2b_BlockSize\<rparr>)
                 (word_of_int blake2b_BlockSize))
      in d4\<lparr>buf := drop (nat blake2b_BlockSize) (buf d4) @ drop (nat blake2b_BlockSize) (buf d4),
            buflen := blake2b_BlockSize\<rparr>)"

definition blake2b_last_block :: "uint64 digest \<Rightarrow> uint64 digest" where
  "blake2b_last_block d =
     (if buflen d > blake2b_BlockSize then
        (let d1 = blake2b_compress (blake2b_incrementCounter d (word_of_int blake2b_BlockSize))
         in d1\<lparr>buflen := buflen d - blake2b_BlockSize,
               buf := take (nat (buflen d - blake2b_BlockSize)) (drop (nat blake2b_BlockSize) (buf d))
                      @ drop (nat (buflen d - blake2b_BlockSize)) (buf d)\<rparr>)
      else d)"

definition blake2b_final :: "uint64 digest \<Rightarrow> uint64 digest" where
  "blake2b_final d =
     (let d1 = blake2b_last_block d;
          d2 = blake2b_incrementCounter d1 (word_of_int (buflen d1))
      in blake2b_compress
           (d2\<lparr>f := (f d2)[0 := 0xffffffffffffffff],
               buf := take (nat (buflen d1)) (buf d1)
                      @ replicate (nat (2 * blake2b_BlockSize - buflen d1)) 0\<rparr>))"

text \<open>
  The engine that \<open>Reset\<close> builds from \<open>new(digest)\<close> with key \<open>k\<close>, before the key block is
  written: the parameter block of \<open>Reset\<close> only reaches \<open>h[0]\<close>. Lemma \<open>blake2b_Reset_new\<close>
  relates it to \<open>Reset\<close>.
\<close>

definition blake2b_init :: "byte list option \<Rightarrow> uint64 digest" where
  "blake2b_init k =
     \<lparr>h = (blake2b_iv ! 0 XOR
            (0x01010040 OR
             push_bit 8 (ucast (word_of_int (min (keylen_of k) blake2b_KeySize) :: byte))))
          # tl blake2b_iv,
      t = [0, 0], f = [0, 0], buf = replicate 256 0, buflen = 0, key = k, ncompress = 0\<rparr>"

text \<open>
  The arithmetic of \<open>G\<close> on the four words it updates, with the two message words \<open>x\<close> and
  \<open>y\<close> it reads; lemma \<open>blake2b_G_mix\<close> relates it to \<open>blake2b_G\<close>.
\<close>

definition blake2b_mix ::
  "uint64 \<Rightarrow> uint64 \<Rightarrow> uint64 \<times> uint64 \<times> uint64 \<times> uint64 \<Rightarrow>
   uint64 \<times> uint64 \<times> uint64 \<times> uint64" where
  "blake2b_mix x y = (\<lambda>(a, b, c, d).
     (let a = a + b + x; d = rotr64 (d XOR a) 32;
          c = c + d; b = rotr64 (b XOR c) 24;
          a = a + b + y; d = rotr64 (d XOR a) 16;
          c = c + d; b = rotr64 (b XOR c) 63
      in (a, b, c, d)))"

section \<open>Package blake2s (the second source file)\<close>

definition blake2s_BlockSize :: int where
  "blake2s_BlockSize = 64"

definition blake2s_KeySize :: int where
  "blake2s_KeySize = 32"

definition blake2s_iv :: "uint32 list" where
  "blake2s_iv =
     [0x6A09E667, 0xBB67AE85, 0x3C6EF372, 0xA54FF53A,
      0x510E527F, 0x9B05688C, 0x1F83D9AB, 0x5BE0CD19]"

definition blake2s_sigma :: "nat list list" where
  "blake2s_sigma =
     [[0, 1, 2, 3, 4, 5, 6, 7, 8, 9, 10, 11, 12, 13, 14, 15],
      [14, 10, 4, 8, 9, 15, 13, 6, 1, 12, 0, 2, 11, 7, 5, 3],
      [11, 8, 12, 0, 5, 2, 15, 13, 10, 14, 3, 6, 7, 1, 9, 4],
      [7, 9, 3, 1, 13, 12, 11, 14, 2, 6, 5, 10, 4, 0, 15, 8],
      [9, 0, 5, 7, 2, 4, 10, 15, 14, 1, 11, 12, 6, 8, 3, 13],
      [2, 12, 6, 10, 0, 11, 8, 3, 4, 13, 7, 5, 15, 14, 1, 9],
      [12, 5, 1, 15, 14, 13, 4, 10, 0, 7, 6, 3, 9, 2, 8, 11],
      [13, 11, 7, 14, 12, 1, 3, 9, 5, 0, 15, 4, 8, 6, 2, 10],
      [6, 15, 14, 9, 11, 3, 0, 8, 12, 2, 13, 7, 1, 4, 10, 5],
      [10, 2, 8, 4, 7, 6, 1, 5, 15, 11, 9, 14, 3, 12, 13, 0]]"

text \<open>
  The closure \<open>rotr32\<close> of \<open>compress\<close>. Its count \<open>c\<close> has type \<open>uint32\<close>, so
  \<open>32 - c\<close> wraps.
\<close>

definition rotr32 :: "uint32 \<Rightarrow> uint32 \<Rightarrow> uint32" where
  "rotr32 w c = drop_bit (unat c) w OR push_bit (unat (32 - c)) w"

text \<open>
  The closure \<open>G\<close> of \<open>compress\<close>: it reads the message words \<open>m\<close> and updates the work
  vector \<open>v\<close> in place, so \<open>v\<close> is passed in and returned.
\<close>

definition blake2s_G ::
  "uint32 list \<Rightarrow> nat \<Rightarrow> nat \<Rightarrow> nat \<Rightarrow> nat \<Rightarrow> nat \<Rightarrow> nat \<Rightarrow> uint32 list \<Rightarrow> uint32 list" where
  "blake2s_G m r i a b c d v0 =
     (let v = v0[a := v0 ! a + v0 ! b + m ! (blake2s_sigma ! r ! (2 * i + 0))];
          v = v[d := rotr32 (v ! d XOR v ! a) 16];
          v = v[c := v ! c + v ! d];
          v = v[b := rotr32 (v ! b XOR v ! c) 12];
          v = v[a := v ! a + v ! b + m ! (blake2s_sigma ! r ! (2 * i + 1))];
          v = v[d := rotr32 (v ! d XOR v ! a) 8];
          v = v[c := v ! c + v ! d];
          v = v[b := rotr32 (v ! b XOR v ! c) 7]
      in v)"

text \<open>The body of the round loop of \<open>compress\<close>, for round \<open>i\<close>.\<close>

definition blake2s_round :: "uint32 list \<Rightarrow> nat \<Rightarrow> uint32 list \<Rightarrow> uint32 list" where
  "blake2s_round m i v0 =
     (let v = blake2s_G m i 0 0 4 8 12 v0;
          v = blake2s_G m i 1 1 5 9 13 v;
          v = blake2s_G m i 2 2 6 10 14 v;
          v = blake2s_G m i 3 3 7 11 15 v;
          v = blake2s_G m i 4 0 5 10 15 v;
          v = blake2s_G m i 5 1 6 11 12 v;
          v = blake2s_G m i 6 2 7 8 13 v;
          v = blake2s_G m i 7 3 4 9 14 v
      in v)"

text \<open>The message words and the work vector as \<open>compress\<close> builds them.\<close>

definition blake2s_m :: "uint32 digest \<Rightarrow> uint32 list" where
  "blake2s_m d = map (\<lambda>i. Uint32 (drop (i * 4) (buf d))) [0..<16]"

definition blake2s_v_init :: "uint32 digest \<Rightarrow> uint32 list" where
  "blake2s_v_init d =
     (let v = replicate 16 0;
          v = fold (\<lambda>i v. v[i := h d ! i]) [0..<8] v;
          v = v[8 := blake2s_iv ! 0];
          v = v[9 := blake2s_iv ! 1];
          v = v[10 := blake2s_iv ! 2];
          v = v[11 := blake2s_iv ! 3];
          v = v[12 := t d ! 0 XOR blake2s_iv ! 4];
          v = v[13 := t d ! 1 XOR blake2s_iv ! 5];
          v = v[14 := f d ! 0 XOR blake2s_iv ! 6];
          v = v[15 := f d ! 1 XOR blake2s_iv ! 7]
      in v)"

definition blake2s_compress :: "uint32 digest \<Rightarrow> uint32 digest" where
  "blake2s_compress d =
     (let m = blake2s_m d;
          v = blake2s_v_init d;
          v = fold (blake2s_round m) [0..<10] v;
          hh = fold (\<lambda>i hh. hh[i := hh ! i XOR v ! i XOR v ! (i + 8)]) [0..<8] (h d)
      in d\<lparr>h := hh, ncompress := ncompress d + 1\<rparr>)"

definition blake2s_incrementCounter :: "uint32 digest \<Rightarrow> uint32 \<Rightarrow> uint32 digest" where
  "blake2s_incrementCounter d inc =
     (let d = d\<lparr>t := (t d)[0 := t d ! 0 + inc]\<rparr>
      in if t d ! 0 < inc then d\<lparr>t := (t d)[1 := t d ! 1 - 1]\<rparr> else d)"

text \<open>
  The loop of \<open>Write\<close>, with the loop variables \<open>offset\<close> and \<open>inlen\<close> as arguments. In
  the first branch the source copies from \<open>buf[offset:fill]\<close>.
\<close>

function blake2s_Write_loop ::
  "uint32 digest \<Rightarrow> byte list \<Rightarrow> int \<Rightarrow> int \<Rightarrow> uint32 digest option" where
  "blake2s_Write_loop d b offset inlen =
     (if inlen > 0 then
        (let left = buflen d; fill = 2 * blake2s_BlockSize - left in
         if inlen > fill then
           (case slice b offset fill of None \<Rightarrow> None | Some src \<Rightarrow>
            (case copy_go (buf d) left (int (length (buf d))) src of None \<Rightarrow> None | Some nb \<Rightarrow>
              (let d = d\<lparr>buf := nb\<rparr>;
                   d = d\<lparr>buflen := buflen d + fill\<rparr>;
                   d = blake2s_incrementCounter d (word_of_int blake2s_BlockSize);
                   d = blake2s_compress d
               in (case slice (buf d) blake2s_BlockSize (int (length (buf d))) of None \<Rightarrow> None | Some hi \<Rightarrow>
                   (case copy_go (buf d) 0 blake2s_BlockSize hi of None \<Rightarrow> None | Some nb \<Rightarrow>
                     blake2s_Write_loop (d\<lparr>buf := nb, buflen := buflen d - blake2s_BlockSize\<rparr>)
                       b (offset + fill) (inlen - fill))))))
         else
           (case slice b offset (int (length b)) of None \<Rightarrow> None | Some src \<Rightarrow>
            (case copy_go (buf d) left (int (length (buf d))) src of None \<Rightarrow> None | Some nb \<Rightarrow>
              blake2s_Write_loop (d\<lparr>buf := nb, buflen := buflen d + inlen\<rparr>)
                b (offset + inlen) (inlen - inlen))))
      else Some d)"
  by pat_completeness auto

definition blake2s_Write ::
  "uint32 digest \<Rightarrow> byte list \<Rightarrow> (uint32 digest \<times> int \<times> error) option" where
  "blake2s_Write d b =
     (case blake2s_Write_loop d b 0 (int (length b)) of
        None \<Rightarrow> None
      | Some d' \<Rightarrow> Some (d', 0, None))"

definition blake2s_Sum ::
  "uint32 digest \<Rightarrow> byte list \<Rightarrow> (uint32 digest \<times> byte list) option" where
  "blake2s_Sum d0 b =
     (case (if buflen d0 > blake2s_BlockSize then
              (let d = blake2s_incrementCounter d0 (word_of_int blake2s_BlockSize);
                   d = blake2s_compress d;
                   d = d\<lparr>buflen := buflen d - blake2s_BlockSize\<rparr>
               in (case slice (buf d) blake2s_BlockSize (int (length (buf d))) of None \<Rightarrow> None | Some hi \<Rightarrow>
                   (case copy_go (buf d) 0 (buflen d) hi of None \<Rightarrow> None | Some nb \<Rightarrow>
                      Some (d\<lparr>buf := nb\<rparr>))))
            else Some d0) of
        None \<Rightarrow> None
      | Some d \<Rightarrow>
         (let d = blake2s_incrementCounter d (word_of_int (buflen d));
              d = d\<lparr>f := (f d)[0 := 0xffffffff]\<rparr>;
              j = 2 * blake2s_BlockSize - buflen d
          in (case zero_tail (buf d) (buflen d) j of None \<Rightarrow> None | Some nb \<Rightarrow>
               (let d = d\<lparr>buf := nb\<rparr>;
                    d = blake2s_compress d;
                    buffer = concat (map (\<lambda>i. PutUint32 (h d ! i)) [0..<8])
                in Some (d, b @ buffer)))))"

definition blake2s_Reset :: "uint32 digest \<Rightarrow> uint32 digest option" where
  "blake2s_Reset d0 =
     (let keylen = keylen_of (key d0);
          keylen = (if keylen > blake2s_KeySize then blake2s_KeySize else keylen);
          p = replicate (nat blake2s_BlockSize) (0 :: byte);
          p = p[0 := 32];
          p = p[1 := word_of_int keylen];
          p = p[2 := 1];
          p = p[3 := 1];
          d = d0\<lparr>f := (f d0)[0 := 0]\<rparr>;
          d = d\<lparr>f := (f d)[1 := 0]\<rparr>;
          d = d\<lparr>t := (t d)[0 := 0]\<rparr>;
          d = d\<lparr>t := (t d)[1 := 0]\<rparr>;
          d = d\<lparr>buflen := 0\<rparr>;
          d = d\<lparr>h := fold (\<lambda>i hh. hh[i := blake2s_iv ! i XOR Uint32 (drop (i * 4) p)])
                       [0..<8] (h d)\<rparr>
      in if keylen > 0 then
           (let block = replicate (nat blake2s_BlockSize) (0 :: byte) in
            case slice (bytes_of (key d)) 0 keylen of None \<Rightarrow> None | Some k \<Rightarrow>
            (case copy_go block 0 (int (length block)) k of None \<Rightarrow> None | Some block \<Rightarrow>
              (case blake2s_Write d block of None \<Rightarrow> None | Some (d', _) \<Rightarrow> Some d')))
         else Some d)"

text \<open>\<open>new(digest)\<close>: every field has its zero value.\<close>

definition blake2s_new_digest :: "uint32 digest" where
  "blake2s_new_digest =
     \<lparr>h = replicate 8 0, t = replicate 2 0, f = replicate 2 0,
      buf = replicate (nat (2 * blake2s_BlockSize)) 0, buflen = 0, key = None,
      ncompress = 0\<rparr>"

definition blake2s_New :: "uint32 digest option" where
  "blake2s_New = blake2s_Reset blake2s_new_digest"

definition blake2s_NewKeyed :: "byte list option \<Rightarrow> uint32 digest option" where
  "blake2s_NewKeyed k = blake2s_Reset (blake2s_new_digest\<lparr>key := k\<rparr>)"

text \<open>
  The arrays of the struct have their declared sizes, and \<open>buflen\<close> stays within the
  buffer between calls.
\<close>

definition blake2s_shape :: "uint32 digest \<Rightarrow> bool" where
  "blake2s_shape d \<longleftrightarrow>
     length (h d) = 8 \<and> length (t d) = 2 \<and> length (f d) = 2 \<and> length (buf d) = 128"

definition blake2s_inv :: "uint32 digest \<Rightarrow> bool" where
  "blake2s_inv d \<longleftrightarrow>
     blake2s_shape d \<and> 0 \<le> buflen d \<and> buflen d \<le> 2 * blake2s_BlockSize"

text \<open>
  A caller's use of an engine \<open>e\<close> as returned by \<open>New\<close> or \<open>NewKeyed\<close>: one \<open>Write\<close> for
  each chunk in turn, then \<open>Sum(nil)\<close>. A panic in any call ends the run.
\<close>

fun blake2s_Writes :: "uint32 digest \<Rightarrow> byte list list \<Rightarrow> uint32 digest option" where
  "blake2s_Writes d [] = Some d"
| "blake2s_Writes d (b # bs) =
     (case blake2s_Write d b of None \<Rightarrow> None | Some (d', _) \<Rightarrow> blake2s_Writes d' bs)"

definition blake2s_run :: "uint32 digest option \<Rightarrow> byte list list \<Rightarrow> byte list option" where
  "blake2s_run e bs =
     (case e of None \<Rightarrow> None | Some d \<Rightarrow>
      (case blake2s_Writes d bs of None \<Rightarrow> None | Some d' \<Rightarrow>
       (case blake2s_Sum d' [] of None \<Rightarrow> None | Some (_, out) \<Rightarrow> Some out)))"

text \<open>
  Three derived forms, used to state what \<open>Write\<close> and \<open>Sum\<close> leave behind. \<open>blake2s_flush\<close>
  is the first branch of the loop of \<open>Write\<close> once \<open>src\<close>, which fills the buffer, has been
  copied in; \<open>blake2s_last_block\<close> is the conditional at the head of \<open>Sum\<close>;
  \<open>blake2s_final\<close> is the engine that \<open>Sum\<close> leaves. The lemmas \<open>blake2s_Write_loop_flush\<close> and
  \<open>blake2s_Sum_eq\<close> relate them to the functions above.
\<close>

definition blake2s_flush :: "uint32 digest \<Rightarrow> byte list \<Rightarrow> uint32 digest" where
  "blake2s_flush d src =
     (let d4 = blake2s_compress (blake2s_incrementCounter
                 (d\<lparr>buf := take (nat (buflen d)) (buf d) @ src, buflen := 2 * blake2s_BlockSize\<rparr>)
                 (word_of_int blake2s_BlockSize))
      in d4\<lparr>buf := drop (nat blake2s_BlockSize) (buf d4) @ drop (nat blake2s_BlockSize) (buf d4),
            buflen := blake2s_BlockSize\<rparr>)"

definition blake2s_last_block :: "uint32 digest \<Rightarrow> uint32 digest" where
  "blake2s_last_block d =
     (if buflen d > blake2s_BlockSize then
        (let d1 = blake2s_compress (blake2s_incrementCounter d (word_of_int blake2s_BlockSize))
         in d1\<lparr>buflen := buflen d - blake2s_BlockSize,
               buf := take (nat (buflen d - blake2s_BlockSize)) (drop (nat blake2s_BlockSize) (buf d))
                      @ drop (nat (buflen d - blake2s_BlockSize)) (buf d)\<rparr>)
      else d)"

definition blake2s_final :: "uint32 digest \<Rightarrow> uint32 digest" where
  "blake2s_final d =
     (let d1 = blake2s_last_block d;
          d2 = blake2s_incrementCounter d1 (word_of_int (buflen d1))
      in blake2s_compress
           (d2\<lparr>f := (f d2)[0 := 0xffffffff],
               buf := take (nat (buflen d1)) (buf d1)
                      @ replicate (nat (2 * blake2s_BlockSize - buflen d1)) 0\<rparr>))"

text \<open>
  The engine that \<open>Reset\<close> builds from \<open>new(digest)\<close> with key \<open>k\<close>, before the key block is
  written: the parameter block of \<open>Reset\<close> only reaches \<open>h[0]\<close>. Lemma \<open>blake2s_Reset_new\<close>
  relates it to \<open>Reset\<close>.
\<close>

definition blake2s_init :: "byte list option \<Rightarrow> uint32 digest" where
  "blake2s_init k =
     \<lparr>h = (blake2s_iv ! 0 XOR
            (0x01010020 OR
             push_bit 8 (ucast (word_of_int (min (keylen_of k) blake2s_KeySize) :: byte))))
          # tl blake2s_iv,
      t = [0, 0], f = [0, 0], buf = replicate 128 0, buflen = 0, key = k, ncompress = 0\<rparr>"

text \<open>
  The arithmetic of \<open>G\<close> on the four words it updates, with the two message words \<open>x\<close> and
  \<open>y\<close> it reads; lemma \<open>blake2s_G_mix\<close> relates it to \<open>blake2s_G\<close>.
\<close>

definition blake2s_mix ::
  "uint32 \<Rightarrow> uint32 \<Rightarrow> uint32 \<times> uint32 \<times> uint32 \<times> uint32 \<Rightarrow>
   uint32 \<times> uint32 \<times> uint32 \<times> uint32" where
  "blake2s_mix x y = (\<lambda>(a, b, c, d).
     (let a = a + b + x; d = rotr32 (d XOR a) 16;
          c = c + d; b = rotr32 (b XOR c) 12;
          a = a + b + y; d = rotr32 (d XOR a) 8;
          c = c + d; b = rotr32 (b XOR c) 7
      in (a, b, c, d)))"

section \<open>The compression function in the words of the specification\<close>

text \<open>
  The mixing step of the specification over four words \<open>(a, b, c, d)\<close> with message words
  \<open>x\<close> and \<open>y\<close> and rotation amounts \<open>(R1, R2, R3, R4)\<close>; \<open>word_rotr\<close> is the library's
  rotation to the right, and \<open>+\<close> on words is addition modulo \<open>2 ^ W\<close>.
\<close>

definition spec_mix ::
  "nat \<times> nat \<times> nat \<times> nat \<Rightarrow> 'a::len word \<Rightarrow> 'a word \<Rightarrow>
   'a word \<times> 'a word \<times> 'a word \<times> 'a word \<Rightarrow> 'a word \<times> 'a word \<times> 'a word \<times> 'a word" where
  "spec_mix rot x y = (\<lambda>(a, b, c, d). case rot of (R1, R2, R3, R4) \<Rightarrow>
     (let a = a + b + x; d = word_rotr R1 (d XOR a);
          c = c + d; b = word_rotr R2 (b XOR c);
          a = a + b + y; d = word_rotr R3 (d XOR a);
          c = c + d; b = word_rotr R4 (b XOR c)
      in (a, b, c, d)))"

text \<open>The fixed groupings of four indices: four columns, then four diagonals.\<close>

definition spec_groups :: "(nat \<times> nat \<times> nat \<times> nat) list" where
  "spec_groups =
     [(0, 4, 8, 12), (1, 5, 9, 13), (2, 6, 10, 14), (3, 7, 11, 15),
      (0, 5, 10, 15), (1, 6, 11, 12), (2, 7, 8, 13), (3, 4, 9, 14)]"

text \<open>
  Mixing step \<open>i\<close> of round \<open>r\<close>: row \<open>r\<close> of \<open>sigma\<close> selects the two message words, and
  only the four words of the group change.
\<close>

definition spec_G ::
  "nat \<times> nat \<times> nat \<times> nat \<Rightarrow> nat list list \<Rightarrow> 'a::len word list \<Rightarrow> nat \<Rightarrow> nat \<Rightarrow>
   'a word list \<Rightarrow> 'a word list" where
  "spec_G rot sigma m r i v =
     (case spec_groups ! i of (ia, ib, ic, idx) \<Rightarrow>
      (case spec_mix rot (m ! (sigma ! r ! (2 * i))) (m ! (sigma ! r ! (2 * i + 1)))
              (v ! ia, v ! ib, v ! ic, v ! idx) of
         (a, b, c, d) \<Rightarrow> v[ia := a, ib := b, ic := c, idx := d]))"

definition spec_round ::
  "nat \<times> nat \<times> nat \<times> nat \<Rightarrow> nat list list \<Rightarrow> 'a::len word list \<Rightarrow> nat \<Rightarrow>
   'a word list \<Rightarrow> 'a word list" where
  "spec_round rot sigma m r v = fold (spec_G rot sigma m r) [0..<8] v"

definition spec_work_vector :: "'a::len word list \<Rightarrow> 'a word digest \<Rightarrow> 'a word list" where
  "spec_work_vector iv d =
     h d @ take 4 iv @
     [t d ! 0 XOR iv ! 4, t d ! 1 XOR iv ! 5, f d ! 0 XOR iv ! 6, f d ! 1 XOR iv ! 7]"

text \<open>The chaining value after \<open>R\<close> rounds on the message words \<open>m\<close>.\<close>

definition spec_compress_h ::
  "nat \<Rightarrow> nat \<times> nat \<times> nat \<times> nat \<Rightarrow> nat list list \<Rightarrow> 'a::len word list \<Rightarrow> 'a word list \<Rightarrow>
   'a word digest \<Rightarrow> 'a word list" where
  "spec_compress_h R rot sigma iv m d =
     (let v = fold (spec_round rot sigma m) [0..<R] (spec_work_vector iv d)
      in map (\<lambda>i. h d ! i XOR v ! i XOR v ! (i + 8)) [0..<8])"

section \<open>Slices, copies and the clearing loop\<close>

lemma slice_Some_bounds:
  "slice s lo hi = Some r \<Longrightarrow> 0 \<le> lo \<and> lo \<le> hi \<and> hi \<le> int (length s)"
  by (simp add: slice_def split: if_splits)

lemma length_fold_update: "length (fold (\<lambda>i xs. xs[i := g i xs]) js xs) = length xs"
  by (induction js arbitrary: xs) auto

lemma zero_tail_fold:
  "start + n \<le> length a \<Longrightarrow>
   fold (\<lambda>i r. case r of None \<Rightarrow> None | Some a' \<Rightarrow> store a' (int i + int start) (0::byte))
     [0..<n] (Some a)
     = Some (take start a @ replicate n 0 @ drop (start + n) a)"
proof (induction n)
  case 0
  then show ?case by simp
next
  case (Suc n)
  have "(take start a @ replicate n 0 @ drop (start + n) a)[n + start := 0]
          = take start a @ replicate n 0 @ (drop (start + n) a)[0 := 0]"
    using Suc.prems by (simp add: list_update_append)
  also have "(drop (start + n) a)[0 := 0] = 0 # drop (start + Suc n) a"
    using Cons_nth_drop_Suc[of "start + n" a, symmetric] Suc.prems by simp
  finally have u: "(take start a @ replicate n 0 @ drop (start + n) a)[n + start := 0]
           = take start a @ replicate (Suc n) 0 @ drop (start + Suc n) a"
    by (simp add: replicate_append_same)
  have idx: "nat (int n + int start) = n + start" by simp
  show ?case
    using Suc by (simp add: store_def idx u del: replicate_Suc)
qed

lemma zero_tail_eq:
  "0 \<le> start \<Longrightarrow> 0 \<le> j \<Longrightarrow> start + j \<le> int (length a) \<Longrightarrow>
   zero_tail a start j
     = Some (take (nat start) a @ replicate (nat j) 0 @ drop (nat (start + j)) a)"
proof -
  assume a: "0 \<le> start" "0 \<le> j" "start + j \<le> int (length a)"
  then have "nat start + nat j \<le> length a" by linarith
  moreover have e: "int (nat start) = start" using a by simp
  ultimately show ?thesis
    using zero_tail_fold[of "nat start" "nat j" a] a
    unfolding e by (simp add: zero_tail_def nat_add_distrib)
qed

lemma key_update_out:
  "(d\<lparr>key := k\<rparr>)\<lparr>buf := x\<rparr> = (d\<lparr>buf := x\<rparr>)\<lparr>key := k\<rparr>"
  "(d\<lparr>key := k\<rparr>)\<lparr>buflen := n\<rparr> = (d\<lparr>buflen := n\<rparr>)\<lparr>key := k\<rparr>"
  "(d\<lparr>key := k\<rparr>)\<lparr>f := y\<rparr> = (d\<lparr>f := y\<rparr>)\<lparr>key := k\<rparr>"
  by simp_all

lemma upt_8: "[0..<8] = [0, 1, 2, 3, 4, 5, 6, 7]"
  by (simp add: upt_rec)

lemma upt_10: "[0..<10] = [0, 1, 2, 3, 4, 5, 6, 7, 8, 9]"
  by (simp add: upt_rec)

lemma upt_12: "[0..<12] = [0, 1, 2, 3, 4, 5, 6, 7, 8, 9, 10, 11]"
  by (simp add: upt_rec)

lemma upt_16: "[0..<16] = [0, 1, 2, 3, 4, 5, 6, 7, 8, 9, 10, 11, 12, 13, 14, 15]"
  by (simp add: upt_rec)

lemma replicate_2_upd: "(replicate 2 z)[0 := x, Suc 0 := y] = [x, y]"
  by (simp add: numeral_2_eq_2)

lemma length_spec_G [simp]: "i < 8 \<Longrightarrow> length (spec_G rot sigma m r i v) = length v"
  by (auto simp: spec_G_def spec_groups_def nth_Cons' split: prod.splits)

section \<open>Package blake2b: what each function leaves unchanged\<close>

lemma blake2b_compress_fields [simp]:
  "buflen (blake2b_compress d) = buflen d"
  "buf (blake2b_compress d) = buf d"
  "length (h (blake2b_compress d)) = length (h d)"
  "t (blake2b_compress d) = t d"
  "f (blake2b_compress d) = f d"
  "key (blake2b_compress d) = key d"
  "ncompress (blake2b_compress d) = ncompress d + 1"
  by (simp_all add: blake2b_compress_def Let_def length_fold_update)

lemma blake2b_incrementCounter_fields [simp]:
  "buflen (blake2b_incrementCounter d n) = buflen d"
  "buf (blake2b_incrementCounter d n) = buf d"
  "h (blake2b_incrementCounter d n) = h d"
  "length (t (blake2b_incrementCounter d n)) = length (t d)"
  "f (blake2b_incrementCounter d n) = f d"
  "key (blake2b_incrementCounter d n) = key d"
  "ncompress (blake2b_incrementCounter d n) = ncompress d"
  by (simp_all add: blake2b_incrementCounter_def Let_def)

lemma blake2b_compress_key:
  "blake2b_compress (d\<lparr>key := k\<rparr>) = (blake2b_compress d)\<lparr>key := k\<rparr>"
  by (simp add: blake2b_compress_def blake2b_m_def blake2b_v_init_def Let_def)

lemma blake2b_incrementCounter_key:
  "blake2b_incrementCounter (d\<lparr>key := k\<rparr>) n = (blake2b_incrementCounter d n)\<lparr>key := k\<rparr>"
  by (simp add: blake2b_incrementCounter_def Let_def)

section \<open>Package blake2b: the loop of \<open>Write\<close>\<close>

termination blake2b_Write_loop
proof (relation "measures [\<lambda>(d, b, offset, inlen). nat inlen,
                           \<lambda>(d, b, offset, inlen). nat (buflen d)]", goal_cases)
  case 1
  show ?case by simp
next
  case (2 d b offset inlen left fill src nb d1 d2 d3 d4 hi nb2)
  from 2(5) have "0 \<le> fill" by (auto dest: slice_Some_bounds)
  with 2 show ?case by (auto simp: blake2b_BlockSize_def)
next
  case 3
  then show ?case by auto
qed

declare blake2b_Write_loop.simps [simp del]

lemma blake2b_Write_loop_done:
  "inlen \<le> 0 \<Longrightarrow> blake2b_Write_loop d b offset inlen = Some d"
  by (simp add: blake2b_Write_loop.simps)

text \<open>The second branch: the rest of the input fits, and the loop ends.\<close>

lemma blake2b_Write_loop_tail:
  assumes "blake2b_inv d" and "0 < inlen" and "inlen \<le> 2 * blake2b_BlockSize - buflen d"
    and "0 \<le> offset" and "offset + inlen = int (length b)"
  shows "blake2b_Write_loop d b offset inlen =
         Some (d\<lparr>buf := take (nat (buflen d)) (buf d) @ drop (nat offset) b
                       @ drop (nat (buflen d + inlen)) (buf d),
                 buflen := buflen d + inlen\<rparr>)"
proof -
  from assms(1) have len: "length (buf d) = 256" and bl: "0 \<le> buflen d" "buflen d \<le> 256"
    by (auto simp: blake2b_inv_def blake2b_shape_def blake2b_BlockSize_def)
  have s1: "slice b offset (int (length b)) = Some (drop (nat offset) b)"
    using assms by (simp add: slice_def)
  have l: "length b - nat offset = nat inlen" using assms by linarith
  have s2: "copy_go (buf d) (buflen d) (int (length (buf d))) (drop (nat offset) b)
              = Some (take (nat (buflen d)) (buf d) @ drop (nat offset) b
                       @ drop (nat (buflen d + inlen)) (buf d))"
    using assms bl len l
    by (auto simp: copy_go_def Let_def min_def blake2b_BlockSize_def nat_add_distrib)
  have n: "\<not> 2 * blake2b_BlockSize - buflen d < inlen" using assms(3) by simp
  show ?thesis
    using assms(2)
    apply (subst blake2b_Write_loop.simps)
    apply (simp add: Let_def s1 s2 n)
    apply (simp add: blake2b_Write_loop_done)
    done
qed

lemma blake2b_inv_tail:
  assumes "blake2b_inv d" and "0 < inlen" and "inlen \<le> 2 * blake2b_BlockSize - buflen d"
    and "0 \<le> offset" and "offset + inlen = int (length b)"
  shows "blake2b_inv (d\<lparr>buf := take (nat (buflen d)) (buf d) @ drop (nat offset) b
                       @ drop (nat (buflen d + inlen)) (buf d),
                 buflen := buflen d + inlen\<rparr>)"
  using assms by (auto simp: blake2b_inv_def blake2b_shape_def blake2b_BlockSize_def)

text \<open>
  The first branch: the buffer is filled, its first block is compressed, its second
  block moves to the front, and the loop goes on.
\<close>

lemma blake2b_Write_loop_flush:
  assumes "blake2b_inv d" and "2 * blake2b_BlockSize - buflen d < inlen"
    and "inlen \<le> int (length b)"
  shows "blake2b_Write_loop d b offset inlen =
         blake2b_Write_loop (blake2b_flush d (take (nat (2 * blake2b_BlockSize - buflen d)) b)) b
           (offset + (2 * blake2b_BlockSize - buflen d))
           (inlen - (2 * blake2b_BlockSize - buflen d))"
proof -
  from assms(1) have len: "length (buf d) = 256" and bl: "0 \<le> buflen d" "buflen d \<le> 256"
    by (auto simp: blake2b_inv_def blake2b_shape_def blake2b_BlockSize_def)
  define fill where "fill = 2 * blake2b_BlockSize - buflen d"
  have fill: "0 \<le> fill" "fill < inlen" "fill = 256 - buflen d"
    using bl assms(2) by (auto simp: fill_def blake2b_BlockSize_def)
  have s1: "slice b 0 fill = Some (take (nat fill) b)"
    using fill assms by (simp add: slice_def)
  define nb where "nb = take (nat (buflen d)) (buf d) @ take (nat fill) b"
  have lnb: "length nb = 256"
  proof -
    have "length (take (nat fill) b) = nat fill" using fill assms(3) by simp
    moreover have "length (take (nat (buflen d)) (buf d)) = nat (buflen d)"
      using bl len by simp
    moreover have "nat (buflen d) + nat fill = 256" using fill bl by linarith
    ultimately show ?thesis by (simp add: nb_def del: length_take)
  qed
  have s2: "copy_go (buf d) (buflen d) (int (length (buf d))) (take (nat fill) b) = Some nb"
    using fill assms(3) bl len by (auto simp: copy_go_def Let_def min_def nb_def)
  have s3: "slice nb blake2b_BlockSize (int (length nb)) = Some (drop 128 nb)"
    using lnb by (simp add: slice_def blake2b_BlockSize_def)
  have s4: "copy_go nb 0 blake2b_BlockSize (drop 128 nb) = Some (drop 128 nb @ drop 128 nb)"
    using lnb by (simp add: copy_go_def blake2b_BlockSize_def)
  have e: "buflen d + fill = 2 * blake2b_BlockSize" by (simp add: fill_def)
  show ?thesis
    using fill(1,2)
    apply (subst blake2b_Write_loop.simps)
    apply (simp add: Let_def fill_def[symmetric] s1 s2 s3 s4 e)
    apply (simp add: blake2b_flush_def Let_def nb_def[symmetric] fill_def[symmetric]
             blake2b_BlockSize_def)
    done
qed

lemma blake2b_inv_flush:
  assumes "blake2b_inv d" and "length src = nat (2 * blake2b_BlockSize - buflen d)"
  shows "blake2b_inv (blake2b_flush d src)"
proof -
  from assms(1) have len: "length (buf d) = 256" and bl: "0 \<le> buflen d" "buflen d \<le> 256"
    by (auto simp: blake2b_inv_def blake2b_shape_def blake2b_BlockSize_def)
  define nb where "nb = take (nat (buflen d)) (buf d) @ src"
  have "length (take (nat (buflen d)) (buf d)) = nat (buflen d)" using bl len by simp
  moreover have "nat (buflen d) + nat (256 - buflen d) = 256" using bl by linarith
  ultimately have "length nb = 256"
    using assms(2) by (simp add: nb_def blake2b_BlockSize_def del: length_take)
  then have "length (drop 128 nb @ drop 128 nb) = 256" by simp
  then show ?thesis
    using assms(1)
    by (simp add: blake2b_inv_def blake2b_shape_def blake2b_flush_def Let_def
          blake2b_BlockSize_def nb_def[symmetric] del: length_append length_drop)
qed

lemma blake2b_flush_fields [simp]:
  "buflen (blake2b_flush d src) = blake2b_BlockSize"
  "f (blake2b_flush d src) = f d"
  "key (blake2b_flush d src) = key d"
  "ncompress (blake2b_flush d src) = ncompress d + 1"
  by (simp_all add: blake2b_flush_def Let_def)

text \<open>The loop never reads the key.\<close>

lemma blake2b_Write_loop_key:
  "blake2b_Write_loop (d\<lparr>key := k\<rparr>) b offset inlen
     = map_option (\<lambda>d'. d'\<lparr>key := k\<rparr>) (blake2b_Write_loop d b offset inlen)"
proof (induction d b offset inlen rule: blake2b_Write_loop.induct)
  case (1 d b offset inlen)
  show ?case
    apply (subst blake2b_Write_loop.simps[of d])
    apply (subst blake2b_Write_loop.simps[of "d\<lparr>key := k\<rparr>"])
    using 1
    apply (simp add: Let_def blake2b_compress_key blake2b_incrementCounter_key key_update_out
             split: option.splits)
    done
qed

section \<open>Package blake2b: \<open>Sum\<close>\<close>

lemma blake2b_inv_last_block:
  assumes "blake2b_inv d"
  shows "blake2b_inv (blake2b_last_block d) \<and>
         buflen (blake2b_last_block d) \<le> blake2b_BlockSize"
proof -
  from assms have len: "length (buf d) = 256" and bl: "0 \<le> buflen d" "buflen d \<le> 256"
    by (auto simp: blake2b_inv_def blake2b_shape_def blake2b_BlockSize_def)
  show ?thesis
  proof (cases "buflen d > blake2b_BlockSize")
    case False
    then show ?thesis using assms by (simp add: blake2b_last_block_def)
  next
    case True
    define k where "k = nat (buflen d - 128)"
    have k: "k \<le> 128" using bl by (simp add: k_def)
    have "length (take k (drop 128 (buf d)) @ drop k (buf d)) = 256"
      using len k by simp
    then show ?thesis
      using assms True bl
      by (simp add: blake2b_last_block_def Let_def blake2b_inv_def blake2b_shape_def
            blake2b_BlockSize_def k_def[symmetric] del: length_append length_take length_drop)
  qed
qed

text \<open>On an engine that satisfies the invariant \<open>Sum\<close> returns, and this is what it returns.\<close>

lemma blake2b_Sum_eq:
  assumes "blake2b_inv d"
  shows "blake2b_Sum d pre =
           Some (blake2b_final d,
                 pre @ concat (map (\<lambda>i. PutUint64 (h (blake2b_final d) ! i)) [0..<8]))"
proof -
  from assms have len: "length (buf d) = 256" and bl: "0 \<le> buflen d" "buflen d \<le> 256"
    by (auto simp: blake2b_inv_def blake2b_shape_def blake2b_BlockSize_def)
  define d1 where "d1 = blake2b_last_block d"
  have inv1: "blake2b_inv d1" and le1: "buflen d1 \<le> 128"
    using blake2b_inv_last_block[OF assms] by (simp_all add: d1_def blake2b_BlockSize_def)
  then have len1: "length (buf d1) = 256" and bl1: "0 \<le> buflen d1"
    by (auto simp: blake2b_inv_def blake2b_shape_def)
  have first:
    "(if buflen d > blake2b_BlockSize then
        (let d' = blake2b_incrementCounter d (word_of_int blake2b_BlockSize);
             d' = blake2b_compress d';
             d' = d'\<lparr>buflen := buflen d' - blake2b_BlockSize\<rparr>
         in (case slice (buf d') blake2b_BlockSize (int (length (buf d'))) of
               None \<Rightarrow> None
             | Some hi \<Rightarrow>
                (case copy_go (buf d') 0 (buflen d') hi of
                   None \<Rightarrow> None
                 | Some nb \<Rightarrow> Some (d'\<lparr>buf := nb\<rparr>))))
      else Some d) = Some d1"
  proof (cases "buflen d > blake2b_BlockSize")
    case False
    then show ?thesis by (simp add: d1_def blake2b_last_block_def)
  next
    case True
    have s1: "slice (buf d) 128 (int (length (buf d))) = Some (drop 128 (buf d))"
      using len by (simp add: slice_def)
    have s2: "copy_go (buf d) 0 (buflen d - 128) (drop 128 (buf d))
               = Some (take (nat (buflen d - 128)) (drop 128 (buf d))
                       @ drop (nat (buflen d - 128)) (buf d))"
      using len bl True by (auto simp: copy_go_def blake2b_BlockSize_def Let_def min_def)
    show ?thesis
      using True
      by (simp add: Let_def s1 s2 d1_def blake2b_last_block_def blake2b_BlockSize_def)
  qed
  have z: "zero_tail (buf d1) (buflen d1) (2 * blake2b_BlockSize - buflen d1)
            = Some (take (nat (buflen d1)) (buf d1)
                    @ replicate (nat (2 * blake2b_BlockSize - buflen d1)) 0)"
    using zero_tail_eq[of "buflen d1" "2 * blake2b_BlockSize - buflen d1" "buf d1"] bl1 le1 len1
    by (simp add: blake2b_BlockSize_def)
  show ?thesis
    unfolding blake2b_Sum_def first
    by (simp add: Let_def z blake2b_final_def d1_def[symmetric])
qed

section \<open>Package blake2b: \<open>Reset\<close>, \<open>New\<close> and \<open>NewKeyed\<close>\<close>

lemma blake2b_param_words:
  fixes w :: byte
  defines "p \<equiv> (replicate 128 (0::byte))[0 := 64, 1 := w, 2 := 1, 3 := 1]"
  shows "Uint64 (drop 0 p) = 0x01010040 OR push_bit 8 (ucast w)"
    and "0 < i \<Longrightarrow> i < 8 \<Longrightarrow> Uint64 (drop (i * 8) p) = 0"
proof -
  show "Uint64 (drop 0 p) = 0x01010040 OR push_bit 8 (ucast w)"
    by (simp add: Uint64_def p_def or.left_commute[of "64"]) (simp add: or.commute)
  assume "0 < i" "i < 8"
  then have "drop (i * 8) p = replicate (128 - i * 8) 0"
    by (simp add: p_def drop_update_cancel)
  then show "Uint64 (drop (i * 8) p) = 0"
    using \<open>i < 8\<close> by (simp add: Uint64_def)
qed

lemma blake2b_h_fold:
  fixes w :: byte
  shows "fold (\<lambda>i hh. hh[i := blake2b_iv ! i XOR
                 Uint64 (drop (i * 8)
                   ((replicate 128 0)[0 := 64, Suc 0 := w, 2 := 1, 3 := 1]))])
           [0..<8] (replicate 8 0)
         = (blake2b_iv ! 0 XOR (0x01010040 OR push_bit 8 (ucast w))) # tl blake2b_iv"
proof -
  define p where "p = (replicate 128 (0::byte))[0 := 64, 1 := w, 2 := 1, 3 := 1]"
  have w: "Uint64 p = 0x01010040 OR push_bit 8 (ucast w)"
    "\<And>i. 0 < i \<Longrightarrow> i < 8 \<Longrightarrow> Uint64 (drop (i * 8) p) = 0"
    using blake2b_param_words[where w = w] by (simp_all add: p_def)
  have "fold (\<lambda>i hh. hh[i := blake2b_iv ! i XOR Uint64 (drop (i * 8) p)]) [0..<8]
          (replicate 8 0)
         = (blake2b_iv ! 0 XOR (0x01010040 OR push_bit 8 (ucast w))) # tl blake2b_iv"
    using w(1) w(2)[of 1] w(2)[of 2] w(2)[of 3] w(2)[of 4] w(2)[of 5] w(2)[of 6] w(2)[of 7]
    by (simp add: upt_8 blake2b_iv_def numeral_eq_Suc)
  then show ?thesis by (simp add: p_def)
qed

text \<open>
  \<open>Reset\<close> on \<open>new(digest)\<close> with key \<open>k\<close>: the key, cut to \<open>KeySize\<close> bytes and padded with
  zeros to one block, is written to \<open>blake2b_init k\<close>.
\<close>

lemma blake2b_Reset_new:
  "blake2b_Reset (blake2b_new_digest\<lparr>key := k\<rparr>) =
     (if min (keylen_of k) blake2b_KeySize > 0 then
        map_option fst (blake2b_Write (blake2b_init k)
          (take (nat (min (keylen_of k) blake2b_KeySize)) (bytes_of k)
           @ replicate (128 - nat (min (keylen_of k) blake2b_KeySize)) 0))
      else Some (blake2b_init k))"
proof -
  define kl where "kl = min (keylen_of k) blake2b_KeySize"
  have blk: "copy_go (replicate 128 (0::byte)) 0 128 (take (nat kl) (bytes_of k))
               = Some (take (nat kl) (bytes_of k) @ replicate (128 - nat kl) 0)"
  proof -
    have "nat kl \<le> length (bytes_of k)" "nat kl \<le> 64"
      by (auto simp: kl_def keylen_of_def bytes_of_def blake2b_KeySize_def split: option.splits)
    then show ?thesis by (simp add: copy_go_def Let_def min_def)
  qed
  have sl: "slice (bytes_of k) 0 kl = Some (take (nat kl) (bytes_of k))" if "0 < kl"
    using that by (auto simp: slice_def kl_def keylen_of_def bytes_of_def split: option.splits)
  have m: "map_option fst r = (case r of None \<Rightarrow> None | Some (d', _) \<Rightarrow> Some d')"
    for r :: "(uint64 digest \<times> int \<times> error) option"
    by (cases r) auto
  show ?thesis
  proof (cases "keylen_of k > blake2b_KeySize")
    case True
    then have e: "kl = blake2b_KeySize" by (simp add: kl_def)
    show ?thesis
      unfolding blake2b_Reset_def m
      using True sl blk
      by (simp add: Let_def blake2b_new_digest_def blake2b_BlockSize_def blake2b_h_fold
            blake2b_init_def e kl_def[symmetric] blake2b_KeySize_def replicate_2_upd)
  next
    case False
    then have e: "kl = keylen_of k" by (simp add: kl_def)
    show ?thesis
      unfolding blake2b_Reset_def m
      using False sl blk
      by (simp add: Let_def blake2b_new_digest_def blake2b_BlockSize_def blake2b_h_fold
            blake2b_init_def e kl_def[symmetric] replicate_2_upd)
  qed
qed

lemma blake2b_inv_init: "blake2b_inv (blake2b_init k)"
  by (simp add: blake2b_inv_def blake2b_shape_def blake2b_init_def blake2b_iv_def
        blake2b_BlockSize_def)

text \<open>
  What \<open>NewKeyed\<close> returns, for any key: it never fails, and a key longer than \<open>KeySize\<close>
  contributes its first \<open>KeySize\<close> bytes.
\<close>

lemma blake2b_NewKeyed_eq:
  "blake2b_NewKeyed k =
     Some (if min (keylen_of k) blake2b_KeySize > 0
           then (blake2b_init k)
                  \<lparr>buf := take (nat (min (keylen_of k) blake2b_KeySize)) (bytes_of k)
                          @ replicate (128 - nat (min (keylen_of k) blake2b_KeySize)) 0
                          @ replicate 128 0,
                   buflen := 128\<rparr>
           else blake2b_init k)"
proof (cases "min (keylen_of k) blake2b_KeySize > 0")
  case False
  then show ?thesis by (simp only: blake2b_NewKeyed_def blake2b_Reset_new if_False)
next
  case True
  define kl where "kl = nat (min (keylen_of k) blake2b_KeySize)"
  define block where "block = take kl (bytes_of k) @ replicate (128 - kl) (0::byte)"
  have kl: "kl \<le> length (bytes_of k)" "kl \<le> 64"
    by (auto simp: kl_def keylen_of_def bytes_of_def blake2b_KeySize_def split: option.splits)
  then have lb: "int (length block) = 128" by (simp add: block_def)
  have "blake2b_Write_loop (blake2b_init k) block 0 128
          = Some ((blake2b_init k)\<lparr>buf := take (nat (buflen (blake2b_init k))) (buf (blake2b_init k))
                       @ drop (nat 0) block
                       @ drop (nat (buflen (blake2b_init k) + 128)) (buf (blake2b_init k)),
                 buflen := buflen (blake2b_init k) + 128\<rparr>)"
    by (rule blake2b_Write_loop_tail[OF blake2b_inv_init])
       (simp_all add: lb blake2b_init_def blake2b_BlockSize_def)
  then have "blake2b_Write (blake2b_init k) block
          = Some ((blake2b_init k)\<lparr>buf := block @ replicate 128 0, buflen := 128\<rparr>, 0, None)"
    by (simp add: blake2b_Write_def lb blake2b_init_def)
  then have W: "blake2b_Write (blake2b_init k)
           (take (nat (min (keylen_of k) blake2b_KeySize)) (bytes_of k)
            @ replicate (128 - nat (min (keylen_of k) blake2b_KeySize)) 0)
          = Some ((blake2b_init k)
                  \<lparr>buf := take (nat (min (keylen_of k) blake2b_KeySize)) (bytes_of k)
                          @ replicate (128 - nat (min (keylen_of k) blake2b_KeySize)) 0
                          @ replicate 128 0,
                   buflen := 128\<rparr>, 0, None)"
    by (simp add: block_def kl_def)
  show ?thesis
    by (simp only: blake2b_NewKeyed_def blake2b_Reset_new True if_True W option.map fst_conv)
qed

lemma blake2b_New_eq: "blake2b_New = Some (blake2b_init None)"
  using blake2b_NewKeyed_eq[of None]
  by (simp add: blake2b_New_def blake2b_NewKeyed_def keylen_of_def blake2b_new_digest_def)

section \<open>Package blake2b: the key is read by \<open>Reset\<close> only\<close>

lemma blake2b_Write_key:
  "blake2b_Write (d\<lparr>key := k\<rparr>) b
     = map_option (\<lambda>(d', r). (d'\<lparr>key := k\<rparr>, r)) (blake2b_Write d b)"
  by (simp add: blake2b_Write_def blake2b_Write_loop_key split: option.splits)

lemma blake2b_Writes_key:
  "blake2b_Writes (d\<lparr>key := k\<rparr>) bs
     = map_option (\<lambda>d'. d'\<lparr>key := k\<rparr>) (blake2b_Writes d bs)"
  by (induction bs arbitrary: d) (auto simp: blake2b_Write_key split: option.splits)

lemma blake2b_Sum_key:
  "blake2b_Sum (d\<lparr>key := k\<rparr>) pre
     = map_option (\<lambda>(d', out). (d'\<lparr>key := k\<rparr>, out)) (blake2b_Sum d pre)"
  by (simp add: blake2b_Sum_def Let_def blake2b_compress_key blake2b_incrementCounter_key
        key_update_out split: option.splits)

lemma blake2b_run_key:
  "blake2b_run (Some (d\<lparr>key := k\<rparr>)) bs = blake2b_run (Some d) bs"
  by (auto simp: blake2b_run_def blake2b_Writes_key blake2b_Sum_key split: option.splits)

lemma blake2b_init_key:
  "min (keylen_of k) blake2b_KeySize = min (keylen_of k') blake2b_KeySize \<Longrightarrow>
   blake2b_init k = (blake2b_init k')\<lparr>key := k\<rparr>"
  by (simp add: blake2b_init_def)

section \<open>Package blake2b: a \<open>Write\<close> that fits, and the engine after \<open>Sum\<close>\<close>

lemma blake2b_Write_fits:
  assumes "blake2b_inv d" and "int (length b) \<le> 2 * blake2b_BlockSize - buflen d"
  shows "blake2b_Write d b =
           Some (d\<lparr>buf := take (nat (buflen d)) (buf d) @ b
                         @ drop (nat (buflen d) + length b) (buf d),
                   buflen := buflen d + int (length b)\<rparr>, 0, None)"
proof (cases "b = []")
  case True
  then show ?thesis by (simp add: blake2b_Write_def blake2b_Write_loop_done)
next
  case False
  from assms(1) have bl: "0 \<le> buflen d" by (simp add: blake2b_inv_def)
  have "blake2b_Write_loop d b 0 (int (length b)) =
         Some (d\<lparr>buf := take (nat (buflen d)) (buf d) @ drop (nat 0) b
                       @ drop (nat (buflen d + int (length b))) (buf d),
                 buflen := buflen d + int (length b)\<rparr>)"
    using False by (intro blake2b_Write_loop_tail[OF assms(1) _ assms(2)]) simp_all
  then show ?thesis
    using bl by (simp add: blake2b_Write_def nat_add_distrib)
qed

lemma blake2b_inv_fits:
  assumes "blake2b_inv d" and "int (length b) \<le> 2 * blake2b_BlockSize - buflen d"
  shows "blake2b_inv (d\<lparr>buf := take (nat (buflen d)) (buf d) @ b
                         @ drop (nat (buflen d) + length b) (buf d),
                   buflen := buflen d + int (length b)\<rparr>)"
proof -
  from assms have len: "length (buf d) = 256" and bl: "0 \<le> buflen d"
    and le: "nat (buflen d) + length b \<le> 256"
    by (auto simp: blake2b_inv_def blake2b_shape_def blake2b_BlockSize_def)
  have "length (take (nat (buflen d)) (buf d) @ b @ drop (nat (buflen d) + length b) (buf d))
          = 256"
    using len le by simp
  then show ?thesis
    using assms bl
    by (simp add: blake2b_inv_def blake2b_shape_def del: length_append length_take length_drop)
qed

lemma blake2b_last_block_fields [simp]:
  "f (blake2b_last_block d) = f d"
  "key (blake2b_last_block d) = key d"
  "ncompress (blake2b_last_block d)
     = ncompress d + (if buflen d > blake2b_BlockSize then 1 else 0)"
  "buflen (blake2b_last_block d)
     = (if buflen d > blake2b_BlockSize then buflen d - blake2b_BlockSize else buflen d)"
  by (simp_all add: blake2b_last_block_def Let_def)

lemma blake2b_final_fields [simp]:
  "f (blake2b_final d) = (f d)[0 := 0xffffffffffffffff]"
  "key (blake2b_final d) = key d"
  "ncompress (blake2b_final d)
     = ncompress d + (if buflen d > blake2b_BlockSize then 2 else 1)"
  "buflen (blake2b_final d)
     = (if buflen d > blake2b_BlockSize then buflen d - blake2b_BlockSize else buflen d)"
  by (simp_all add: blake2b_final_def Let_def)

lemma blake2b_inv_final:
  assumes "blake2b_inv d"
  shows "blake2b_inv (blake2b_final d)"
proof -
  define d1 where "d1 = blake2b_last_block d"
  have inv1: "blake2b_inv d1" and le1: "buflen d1 \<le> 128"
    using blake2b_inv_last_block[OF assms] by (simp_all add: d1_def blake2b_BlockSize_def)
  then have len1: "length (buf d1) = 256" and bl1: "0 \<le> buflen d1"
    by (auto simp: blake2b_inv_def blake2b_shape_def)
  have "nat (buflen d1) + nat (256 - buflen d1) = 256" using bl1 le1 by linarith
  then have "length (take (nat (buflen d1)) (buf d1) @ replicate (nat (256 - buflen d1)) 0) = 256"
    using len1 bl1 le1 by simp
  then show ?thesis
    using inv1 le1
    by (simp add: blake2b_final_def Let_def d1_def[symmetric] blake2b_inv_def blake2b_shape_def
          blake2b_BlockSize_def del: length_append length_take length_replicate)
qed

lemma blake2b_digest_length:
  "length (h d) = 8 \<Longrightarrow> length (concat (map (\<lambda>i. PutUint64 (h d ! i)) [0..<8])) = 64"
  by (simp add: upt_8 PutUint64_def)

section \<open>Package blake2b: \<open>compress\<close> and the compression function of the specification\<close>

lemma blake2b_G_mix:
  assumes "distinct [a, b, c, d]"
    and "a < length v" "b < length v" "c < length v" "d < length v"
  shows "blake2b_G m r i a b c d v =
     (case blake2b_mix (m ! (blake2b_sigma ! r ! (2 * i))) (m ! (blake2b_sigma ! r ! (2 * i + 1)))
             (v ! a, v ! b, v ! c, v ! d) of
        (a', b', c', d') \<Rightarrow> v[a := a', b := b', c := c', d := d'])"
proof (rule nth_equalityI)
  show "length (blake2b_G m r i a b c d v) =
     length (case blake2b_mix (m ! (blake2b_sigma ! r ! (2 * i)))
                   (m ! (blake2b_sigma ! r ! (2 * i + 1))) (v ! a, v ! b, v ! c, v ! d) of
        (a', b', c', d') \<Rightarrow> v[a := a', b := b', c := c', d := d'])"
    by (simp add: blake2b_G_def blake2b_mix_def Let_def)
next
  fix k assume "k < length (blake2b_G m r i a b c d v)"
  then have k: "k < length v" by (simp add: blake2b_G_def Let_def)
  show "blake2b_G m r i a b c d v ! k =
     (case blake2b_mix (m ! (blake2b_sigma ! r ! (2 * i)))
             (m ! (blake2b_sigma ! r ! (2 * i + 1))) (v ! a, v ! b, v ! c, v ! d) of
        (a', b', c', d') \<Rightarrow> v[a := a', b := b', c := c', d := d']) ! k"
    using assms k
    by (simp add: blake2b_G_def blake2b_mix_def Let_def nth_list_update)
qed

lemma length_blake2b_G [simp]: "length (blake2b_G m r i a b c d v) = length v"
  by (simp add: blake2b_G_def Let_def)

lemma length_blake2b_round [simp]: "length (blake2b_round m r v) = length v"
  by (simp add: blake2b_round_def Let_def)

text \<open>The closure \<open>rotr64\<close> is the rotation to the right, for the four amounts in use.\<close>

lemma rotr64_is_rotation:
  assumes "0 < c" and "c < 64"
  shows "drop_bit c (w::uint64) OR push_bit (64 - c) w = word_rotr c w"
proof (rule bit_word_eqI)
  fix n assume "n < LENGTH(64)"
  then have n: "n < 64" by simp
  show "bit (drop_bit c w OR push_bit (64 - c) w) n = bit (word_rotr c w) n"
  proof (cases "n + c < 64")
    case True
    then have "\<not> 64 - c \<le> n" by simp
    with True n show ?thesis by (simp add: bit_simps bit_word_rotr_iff add.commute)
  next
    case False
    then have m: "(n + c) mod 64 = n + c - 64"
      using n assms by (simp add: mod_if)
    have nb: "\<not> bit w (n + c)"
      using False bit_imp_le_length[of w "n + c"] by auto
    have "n - (64 - c) = n + c - 64" "64 - c \<le> n" using False assms by simp_all
    with False n m nb show ?thesis by (simp add: bit_simps bit_word_rotr_iff add.commute)
  qed
qed

lemma rotr64_word_rotr:
  "rotr64 w 32 = word_rotr 32 w" "rotr64 w 24 = word_rotr 24 w"
  "rotr64 w 16 = word_rotr 16 w" "rotr64 w 63 = word_rotr 63 w"
  using rotr64_is_rotation[of 32 w] rotr64_is_rotation[of 24 w]
    rotr64_is_rotation[of 16 w] rotr64_is_rotation[of 63 w]
  by (simp_all add: rotr64_def)

lemma blake2b_mix_spec: "blake2b_mix x y = spec_mix (32, 24, 16, 63) x y"
  by (simp add: blake2b_mix_def spec_mix_def rotr64_word_rotr fun_eq_iff)

lemma blake2b_G_spec:
  assumes "length v = 16"
  shows "blake2b_G m r 0 0 4 8 12 v = spec_G (32, 24, 16, 63) blake2b_sigma m r 0 v"
    and "blake2b_G m r 1 1 5 9 13 v = spec_G (32, 24, 16, 63) blake2b_sigma m r 1 v"
    and "blake2b_G m r 2 2 6 10 14 v = spec_G (32, 24, 16, 63) blake2b_sigma m r 2 v"
    and "blake2b_G m r 3 3 7 11 15 v = spec_G (32, 24, 16, 63) blake2b_sigma m r 3 v"
    and "blake2b_G m r 4 0 5 10 15 v = spec_G (32, 24, 16, 63) blake2b_sigma m r 4 v"
    and "blake2b_G m r 5 1 6 11 12 v = spec_G (32, 24, 16, 63) blake2b_sigma m r 5 v"
    and "blake2b_G m r 6 2 7 8 13 v = spec_G (32, 24, 16, 63) blake2b_sigma m r 6 v"
    and "blake2b_G m r 7 3 4 9 14 v = spec_G (32, 24, 16, 63) blake2b_sigma m r 7 v"
  using assms
  by (simp_all add: blake2b_G_mix spec_G_def spec_groups_def blake2b_mix_spec)

lemma blake2b_round_spec:
  assumes "length v = 16"
  shows "blake2b_round m r v = spec_round (32, 24, 16, 63) blake2b_sigma m r v"
proof -
  let ?g = "spec_G (32, 24, 16, 63) blake2b_sigma m r"
  define v1 where "v1 = ?g 0 v"
  define v2 where "v2 = ?g 1 v1"
  define v3 where "v3 = ?g 2 v2"
  define v4 where "v4 = ?g 3 v3"
  define v5 where "v5 = ?g 4 v4"
  define v6 where "v6 = ?g 5 v5"
  define v7 where "v7 = ?g 6 v6"
  have l: "length v1 = 16" "length v2 = 16" "length v3 = 16" "length v4 = 16"
    "length v5 = 16" "length v6 = 16" "length v7 = 16"
    using assms by (simp_all add: v1_def v2_def v3_def v4_def v5_def v6_def v7_def)
  have "blake2b_round m r v =
          blake2b_G m r 7 3 4 9 14 (blake2b_G m r 6 2 7 8 13 (blake2b_G m r 5 1 6 11 12
            (blake2b_G m r 4 0 5 10 15 (blake2b_G m r 3 3 7 11 15 (blake2b_G m r 2 2 6 10 14
              (blake2b_G m r 1 1 5 9 13 (blake2b_G m r 0 0 4 8 12 v)))))))"
    unfolding blake2b_round_def Let_def ..
  also have "blake2b_G m r 0 0 4 8 12 v = v1"
    unfolding v1_def by (rule blake2b_G_spec(1)[OF assms])
  also have "blake2b_G m r 1 1 5 9 13 v1 = v2"
    unfolding v2_def by (rule blake2b_G_spec(2)[OF l(1)])
  also have "blake2b_G m r 2 2 6 10 14 v2 = v3"
    unfolding v3_def by (rule blake2b_G_spec(3)[OF l(2)])
  also have "blake2b_G m r 3 3 7 11 15 v3 = v4"
    unfolding v4_def by (rule blake2b_G_spec(4)[OF l(3)])
  also have "blake2b_G m r 4 0 5 10 15 v4 = v5"
    unfolding v5_def by (rule blake2b_G_spec(5)[OF l(4)])
  also have "blake2b_G m r 5 1 6 11 12 v5 = v6"
    unfolding v6_def by (rule blake2b_G_spec(6)[OF l(5)])
  also have "blake2b_G m r 6 2 7 8 13 v6 = v7"
    unfolding v7_def by (rule blake2b_G_spec(7)[OF l(6)])
  also have "blake2b_G m r 7 3 4 9 14 v7 = ?g 7 v7"
    by (rule blake2b_G_spec(8)[OF l(7)])
  also have "?g 7 v7 = spec_round (32, 24, 16, 63) blake2b_sigma m r v"
    unfolding spec_round_def upt_8 v1_def v2_def v3_def v4_def v5_def v6_def v7_def
    by (simp only: fold_simps o_apply)
  finally show ?thesis .
qed

lemma blake2b_rounds_spec:
  "length v = 16 \<Longrightarrow>
   fold (blake2b_round m) rs v = fold (spec_round (32, 24, 16, 63) blake2b_sigma m) rs v"
proof (induction rs arbitrary: v)
  case Nil
  then show ?case by simp
next
  case (Cons r rs)
  have "length (blake2b_round m r v) = 16" using Cons.prems by simp
  from Cons.IH[OF this] show ?case
    by (simp add: blake2b_round_spec[OF Cons.prems])
qed

lemma blake2b_v_init_spec:
  assumes "length (h d) = 8"
  shows "blake2b_v_init d = spec_work_vector blake2b_iv d"
proof -
  from assms obtain h0 h1 h2 h3 h4 h5 h6 h7 where hd: "h d = [h0, h1, h2, h3, h4, h5, h6, h7]"
    by (auto simp: length_Suc_conv numeral_eq_Suc)
  have r: "replicate 16 (0::uint64) = [0, 0, 0, 0, 0, 0, 0, 0, 0, 0, 0, 0, 0, 0, 0, 0]"
    by (simp add: numeral_eq_Suc)
  show ?thesis
    unfolding blake2b_v_init_def spec_work_vector_def Let_def upt_8 r hd
    by (simp add: blake2b_iv_def numeral_eq_Suc)
qed

lemma blake2b_h_update_spec:
  assumes "length hh = 8"
  shows "fold (\<lambda>i hh. hh[i := hh ! i XOR v ! i XOR v ! (i + 8)]) [0..<8] hh
         = map (\<lambda>i. hh ! i XOR v ! i XOR v ! (i + 8)) [0..<8]"
proof -
  from assms obtain h0 h1 h2 h3 h4 h5 h6 h7 where hd: "hh = [h0, h1, h2, h3, h4, h5, h6, h7]"
    by (auto simp: length_Suc_conv numeral_eq_Suc)
  show ?thesis unfolding hd upt_8 by simp
qed

text \<open>
  \<open>compress\<close> changes the chaining value to that of the specification, and nothing else
  of the struct.
\<close>

lemma blake2b_compress_spec:
  assumes "blake2b_shape d"
  shows "blake2b_compress d =
           d\<lparr>h := spec_compress_h 12 (32, 24, 16, 63) blake2b_sigma blake2b_iv
                     (blake2b_m d) d,
             ncompress := ncompress d + 1\<rparr>"
proof -
  from assms have lh: "length (h d) = 8" by (simp add: blake2b_shape_def)
  have lv: "length (spec_work_vector blake2b_iv d) = 16"
    using lh by (simp add: spec_work_vector_def blake2b_iv_def)
  show ?thesis
    unfolding blake2b_compress_def spec_compress_h_def Let_def
    by (simp only: blake2b_v_init_spec[OF lh] blake2b_rounds_spec[OF lv]
          blake2b_h_update_spec[OF lh])
qed

section \<open>Package blake2b: \<open>Write\<close> returns, and what it has done by then\<close>

text \<open>
  From an engine that satisfies the invariant the loop returns an engine that satisfies
  it. Each compression before that took one block out of the buffer, and once the loop
  has compressed at all it leaves more than one block behind.
\<close>

lemma blake2b_Write_loop_props:
  assumes "blake2b_inv d" and "0 \<le> offset" and "offset + inlen = int (length b)"
  shows "\<exists>d'. blake2b_Write_loop d b offset inlen = Some d' \<and> blake2b_inv d' \<and>
              f d' = f d \<and> key d' = key d \<and>
              int (ncompress d') * blake2b_BlockSize + buflen d'
                = int (ncompress d) * blake2b_BlockSize + buflen d + max inlen 0 \<and>
              (inlen \<le> 2 * blake2b_BlockSize - buflen d \<longrightarrow> ncompress d' = ncompress d) \<and>
              (2 * blake2b_BlockSize - buflen d < inlen \<longrightarrow> blake2b_BlockSize < buflen d')"
  using assms
proof (induction "2 * nat inlen + (if buflen d = 2 * blake2b_BlockSize then 1 else 0)"
        arbitrary: d offset inlen rule: less_induct)
  case less
  note inv = \<open>blake2b_inv d\<close>
  then have bl: "0 \<le> buflen d" "buflen d \<le> 256"
    by (auto simp: blake2b_inv_def blake2b_BlockSize_def)
  consider (fin) "inlen \<le> 0"
    | (tail) "0 < inlen" "inlen \<le> 2 * blake2b_BlockSize - buflen d"
    | (flush) "2 * blake2b_BlockSize - buflen d < inlen" "0 < inlen"
    by linarith
  then show ?case
  proof cases
    case fin
    then show ?thesis
      using inv bl by (simp add: blake2b_Write_loop_done blake2b_BlockSize_def)
  next
    case tail
    have "blake2b_inv (d\<lparr>buf := take (nat (buflen d)) (buf d) @ drop (nat offset) b
                       @ drop (nat (buflen d + inlen)) (buf d),
                 buflen := buflen d + inlen\<rparr>)"
      using inv tail less.prems(2,3)
      by (auto simp: blake2b_inv_def blake2b_shape_def blake2b_BlockSize_def)
    then show ?thesis
      using tail by (simp add: blake2b_Write_loop_tail[OF inv tail less.prems(2,3)])
  next
    case flush
    define fill where "fill = 2 * blake2b_BlockSize - buflen d"
    define d1 where "d1 = blake2b_flush d (take (nat fill) b)"
    have fill: "0 \<le> fill" "fill < inlen"
      using bl flush by (auto simp: fill_def blake2b_BlockSize_def)
    have le: "inlen \<le> int (length b)" using less.prems(2,3) by simp
    have step: "blake2b_Write_loop d b offset inlen
                  = blake2b_Write_loop d1 b (offset + fill) (inlen - fill)"
      unfolding d1_def fill_def by (rule blake2b_Write_loop_flush[OF inv flush(1) le])
    have inv1: "blake2b_inv d1"
      unfolding d1_def using fill le by (intro blake2b_inv_flush[OF inv]) (simp add: fill_def)
    have m: "2 * nat (inlen - fill) + (if buflen d1 = 2 * blake2b_BlockSize then 1 else 0)
             < 2 * nat inlen + (if buflen d = 2 * blake2b_BlockSize then 1 else 0)"
      using fill flush(2) by (auto simp: d1_def blake2b_BlockSize_def fill_def)
    from less.hyps[OF m inv1, of "offset + fill"] fill less.prems
    obtain d' where d': "blake2b_Write_loop d1 b (offset + fill) (inlen - fill) = Some d'"
      "blake2b_inv d'" "f d' = f d1" "key d' = key d1"
      "int (ncompress d') * blake2b_BlockSize + buflen d'
                = int (ncompress d1) * blake2b_BlockSize + buflen d1 + max (inlen - fill) 0"
      "inlen - fill \<le> 2 * blake2b_BlockSize - buflen d1 \<longrightarrow> ncompress d' = ncompress d1"
      "2 * blake2b_BlockSize - buflen d1 < inlen - fill \<longrightarrow> blake2b_BlockSize < buflen d'"
      by auto
    have "blake2b_BlockSize < buflen d'"
      using d'(5,6,7) fill
      by (cases "inlen - fill \<le> 2 * blake2b_BlockSize - buflen d1") (auto simp: d1_def)
    moreover have "int (ncompress d') * blake2b_BlockSize + buflen d'
                = int (ncompress d) * blake2b_BlockSize + buflen d + max inlen 0"
      using d'(5) fill flush(2) by (simp add: d1_def fill_def algebra_simps)
    ultimately show ?thesis
      using d' flush by (simp add: step d1_def)
  qed
qed

text \<open>In package blake2b \<open>Write\<close> returns for every input, and it returns \<open>(0, nil)\<close>.\<close>

lemma blake2b_Write_returns:
  assumes "blake2b_inv d"
  shows "\<exists>d'. blake2b_Write d b = Some (d', 0, None) \<and> blake2b_inv d' \<and> f d' = f d \<and>
              key d' = key d \<and>
              int (ncompress d') * blake2b_BlockSize + buflen d'
                = int (ncompress d) * blake2b_BlockSize + buflen d + int (length b) \<and>
              (int (length b) \<le> 2 * blake2b_BlockSize - buflen d \<longrightarrow>
                 ncompress d' = ncompress d) \<and>
              (2 * blake2b_BlockSize - buflen d < int (length b) \<longrightarrow>
                 blake2b_BlockSize < buflen d')"
  using blake2b_Write_loop_props[OF assms, of 0 "int (length b)" b]
  by (auto simp: blake2b_Write_def)

section \<open>Package blake2s: what each function leaves unchanged\<close>

lemma blake2s_compress_fields [simp]:
  "buflen (blake2s_compress d) = buflen d"
  "buf (blake2s_compress d) = buf d"
  "length (h (blake2s_compress d)) = length (h d)"
  "t (blake2s_compress d) = t d"
  "f (blake2s_compress d) = f d"
  "key (blake2s_compress d) = key d"
  "ncompress (blake2s_compress d) = ncompress d + 1"
  by (simp_all add: blake2s_compress_def Let_def length_fold_update)

lemma blake2s_incrementCounter_fields [simp]:
  "buflen (blake2s_incrementCounter d n) = buflen d"
  "buf (blake2s_incrementCounter d n) = buf d"
  "h (blake2s_incrementCounter d n) = h d"
  "length (t (blake2s_incrementCounter d n)) = length (t d)"
  "f (blake2s_incrementCounter d n) = f d"
  "key (blake2s_incrementCounter d n) = key d"
  "ncompress (blake2s_incrementCounter d n) = ncompress d"
  by (simp_all add: blake2s_incrementCounter_def Let_def)

lemma blake2s_compress_key:
  "blake2s_compress (d\<lparr>key := k\<rparr>) = (blake2s_compress d)\<lparr>key := k\<rparr>"
  by (simp add: blake2s_compress_def blake2s_m_def blake2s_v_init_def Let_def)

lemma blake2s_incrementCounter_key:
  "blake2s_incrementCounter (d\<lparr>key := k\<rparr>) n = (blake2s_incrementCounter d n)\<lparr>key := k\<rparr>"
  by (simp add: blake2s_incrementCounter_def Let_def)

section \<open>Package blake2s: the loop of \<open>Write\<close>\<close>

termination blake2s_Write_loop
proof (relation "measures [\<lambda>(d, b, offset, inlen). nat inlen,
                           \<lambda>(d, b, offset, inlen). nat (buflen d)]", goal_cases)
  case 1
  show ?case by simp
next
  case (2 d b offset inlen left fill src nb d1 d2 d3 d4 hi nb2)
  from 2(5) have "0 \<le> fill" by (auto dest: slice_Some_bounds)
  with 2 show ?case by (auto simp: blake2s_BlockSize_def)
next
  case 3
  then show ?case by auto
qed

declare blake2s_Write_loop.simps [simp del]

lemma blake2s_Write_loop_done:
  "inlen \<le> 0 \<Longrightarrow> blake2s_Write_loop d b offset inlen = Some d"
  by (simp add: blake2s_Write_loop.simps)

text \<open>The second branch: the rest of the input fits, and the loop ends.\<close>

lemma blake2s_Write_loop_tail:
  assumes "blake2s_inv d" and "0 < inlen" and "inlen \<le> 2 * blake2s_BlockSize - buflen d"
    and "0 \<le> offset" and "offset + inlen = int (length b)"
  shows "blake2s_Write_loop d b offset inlen =
         Some (d\<lparr>buf := take (nat (buflen d)) (buf d) @ drop (nat offset) b
                       @ drop (nat (buflen d + inlen)) (buf d),
                 buflen := buflen d + inlen\<rparr>)"
proof -
  from assms(1) have len: "length (buf d) = 128" and bl: "0 \<le> buflen d" "buflen d \<le> 128"
    by (auto simp: blake2s_inv_def blake2s_shape_def blake2s_BlockSize_def)
  have s1: "slice b offset (int (length b)) = Some (drop (nat offset) b)"
    using assms by (simp add: slice_def)
  have l: "length b - nat offset = nat inlen" using assms by linarith
  have s2: "copy_go (buf d) (buflen d) (int (length (buf d))) (drop (nat offset) b)
              = Some (take (nat (buflen d)) (buf d) @ drop (nat offset) b
                       @ drop (nat (buflen d + inlen)) (buf d))"
    using assms bl len l
    by (auto simp: copy_go_def Let_def min_def blake2s_BlockSize_def nat_add_distrib)
  have n: "\<not> 2 * blake2s_BlockSize - buflen d < inlen" using assms(3) by simp
  show ?thesis
    using assms(2)
    apply (subst blake2s_Write_loop.simps)
    apply (simp add: Let_def s1 s2 n)
    apply (simp add: blake2s_Write_loop_done)
    done
qed

lemma blake2s_inv_tail:
  assumes "blake2s_inv d" and "0 < inlen" and "inlen \<le> 2 * blake2s_BlockSize - buflen d"
    and "0 \<le> offset" and "offset + inlen = int (length b)"
  shows "blake2s_inv (d\<lparr>buf := take (nat (buflen d)) (buf d) @ drop (nat offset) b
                       @ drop (nat (buflen d + inlen)) (buf d),
                 buflen := buflen d + inlen\<rparr>)"
  using assms by (auto simp: blake2s_inv_def blake2s_shape_def blake2s_BlockSize_def)

text \<open>
  The first branch: the buffer is filled, its first block is compressed, its second
  block moves to the front, and the loop goes on. Here the loop is at
  its first pass, with \<open>offset = 0\<close>.
\<close>

lemma blake2s_Write_loop_flush:
  assumes "blake2s_inv d" and "2 * blake2s_BlockSize - buflen d < inlen"
    and "inlen \<le> int (length b)" and "offset = 0"
  shows "blake2s_Write_loop d b offset inlen =
         blake2s_Write_loop (blake2s_flush d (take (nat (2 * blake2s_BlockSize - buflen d)) b)) b
           (offset + (2 * blake2s_BlockSize - buflen d))
           (inlen - (2 * blake2s_BlockSize - buflen d))"
proof -
  from assms(1) have len: "length (buf d) = 128" and bl: "0 \<le> buflen d" "buflen d \<le> 128"
    by (auto simp: blake2s_inv_def blake2s_shape_def blake2s_BlockSize_def)
  define fill where "fill = 2 * blake2s_BlockSize - buflen d"
  have fill: "0 \<le> fill" "fill < inlen" "fill = 128 - buflen d"
    using bl assms(2) by (auto simp: fill_def blake2s_BlockSize_def)
  have s1: "slice b offset fill = Some (take (nat fill) b)"
    using fill assms by (simp add: slice_def)
  define nb where "nb = take (nat (buflen d)) (buf d) @ take (nat fill) b"
  have lnb: "length nb = 128"
  proof -
    have "length (take (nat fill) b) = nat fill" using fill assms(3) by simp
    moreover have "length (take (nat (buflen d)) (buf d)) = nat (buflen d)"
      using bl len by simp
    moreover have "nat (buflen d) + nat fill = 128" using fill bl by linarith
    ultimately show ?thesis by (simp add: nb_def del: length_take)
  qed
  have s2: "copy_go (buf d) (buflen d) (int (length (buf d))) (take (nat fill) b) = Some nb"
    using fill assms(3) bl len by (auto simp: copy_go_def Let_def min_def nb_def)
  have s3: "slice nb blake2s_BlockSize (int (length nb)) = Some (drop 64 nb)"
    using lnb by (simp add: slice_def blake2s_BlockSize_def)
  have s4: "copy_go nb 0 blake2s_BlockSize (drop 64 nb) = Some (drop 64 nb @ drop 64 nb)"
    using lnb by (simp add: copy_go_def blake2s_BlockSize_def)
  have e: "buflen d + fill = 2 * blake2s_BlockSize" by (simp add: fill_def)
  show ?thesis
    using fill(1,2)
    apply (subst blake2s_Write_loop.simps)
    apply (simp add: Let_def fill_def[symmetric] s1 s2 s3 s4 e)
    apply (simp add: blake2s_flush_def Let_def nb_def[symmetric] fill_def[symmetric]
             blake2s_BlockSize_def)
    done
qed

lemma blake2s_inv_flush:
  assumes "blake2s_inv d" and "length src = nat (2 * blake2s_BlockSize - buflen d)"
  shows "blake2s_inv (blake2s_flush d src)"
proof -
  from assms(1) have len: "length (buf d) = 128" and bl: "0 \<le> buflen d" "buflen d \<le> 128"
    by (auto simp: blake2s_inv_def blake2s_shape_def blake2s_BlockSize_def)
  define nb where "nb = take (nat (buflen d)) (buf d) @ src"
  have "length (take (nat (buflen d)) (buf d)) = nat (buflen d)" using bl len by simp
  moreover have "nat (buflen d) + nat (128 - buflen d) = 128" using bl by linarith
  ultimately have "length nb = 128"
    using assms(2) by (simp add: nb_def blake2s_BlockSize_def del: length_take)
  then have "length (drop 64 nb @ drop 64 nb) = 128" by simp
  then show ?thesis
    using assms(1)
    by (simp add: blake2s_inv_def blake2s_shape_def blake2s_flush_def Let_def
          blake2s_BlockSize_def nb_def[symmetric] del: length_append length_drop)
qed

lemma blake2s_flush_fields [simp]:
  "buflen (blake2s_flush d src) = blake2s_BlockSize"
  "f (blake2s_flush d src) = f d"
  "key (blake2s_flush d src) = key d"
  "ncompress (blake2s_flush d src) = ncompress d + 1"
  by (simp_all add: blake2s_flush_def Let_def)

text \<open>The loop never reads the key.\<close>

lemma blake2s_Write_loop_key:
  "blake2s_Write_loop (d\<lparr>key := k\<rparr>) b offset inlen
     = map_option (\<lambda>d'. d'\<lparr>key := k\<rparr>) (blake2s_Write_loop d b offset inlen)"
proof (induction d b offset inlen rule: blake2s_Write_loop.induct)
  case (1 d b offset inlen)
  show ?case
    apply (subst blake2s_Write_loop.simps[of d])
    apply (subst blake2s_Write_loop.simps[of "d\<lparr>key := k\<rparr>"])
    using 1
    apply (simp add: Let_def blake2s_compress_key blake2s_incrementCounter_key key_update_out
             split: option.splits)
    done
qed

section \<open>Package blake2s: \<open>Sum\<close>\<close>

lemma blake2s_inv_last_block:
  assumes "blake2s_inv d"
  shows "blake2s_inv (blake2s_last_block d) \<and>
         buflen (blake2s_last_block d) \<le> blake2s_BlockSize"
proof -
  from assms have len: "length (buf d) = 128" and bl: "0 \<le> buflen d" "buflen d \<le> 128"
    by (auto simp: blake2s_inv_def blake2s_shape_def blake2s_BlockSize_def)
  show ?thesis
  proof (cases "buflen d > blake2s_BlockSize")
    case False
    then show ?thesis using assms by (simp add: blake2s_last_block_def)
  next
    case True
    define k where "k = nat (buflen d - 64)"
    have k: "k \<le> 64" using bl by (simp add: k_def)
    have "length (take k (drop 64 (buf d)) @ drop k (buf d)) = 128"
      using len k by simp
    then show ?thesis
      using assms True bl
      by (simp add: blake2s_last_block_def Let_def blake2s_inv_def blake2s_shape_def
            blake2s_BlockSize_def k_def[symmetric] del: length_append length_take length_drop)
  qed
qed

text \<open>On an engine that satisfies the invariant \<open>Sum\<close> returns, and this is what it returns.\<close>

lemma blake2s_Sum_eq:
  assumes "blake2s_inv d"
  shows "blake2s_Sum d pre =
           Some (blake2s_final d,
                 pre @ concat (map (\<lambda>i. PutUint32 (h (blake2s_final d) ! i)) [0..<8]))"
proof -
  from assms have len: "length (buf d) = 128" and bl: "0 \<le> buflen d" "buflen d \<le> 128"
    by (auto simp: blake2s_inv_def blake2s_shape_def blake2s_BlockSize_def)
  define d1 where "d1 = blake2s_last_block d"
  have inv1: "blake2s_inv d1" and le1: "buflen d1 \<le> 64"
    using blake2s_inv_last_block[OF assms] by (simp_all add: d1_def blake2s_BlockSize_def)
  then have len1: "length (buf d1) = 128" and bl1: "0 \<le> buflen d1"
    by (auto simp: blake2s_inv_def blake2s_shape_def)
  have first:
    "(if buflen d > blake2s_BlockSize then
        (let d' = blake2s_incrementCounter d (word_of_int blake2s_BlockSize);
             d' = blake2s_compress d';
             d' = d'\<lparr>buflen := buflen d' - blake2s_BlockSize\<rparr>
         in (case slice (buf d') blake2s_BlockSize (int (length (buf d'))) of
               None \<Rightarrow> None
             | Some hi \<Rightarrow>
                (case copy_go (buf d') 0 (buflen d') hi of
                   None \<Rightarrow> None
                 | Some nb \<Rightarrow> Some (d'\<lparr>buf := nb\<rparr>))))
      else Some d) = Some d1"
  proof (cases "buflen d > blake2s_BlockSize")
    case False
    then show ?thesis by (simp add: d1_def blake2s_last_block_def)
  next
    case True
    have s1: "slice (buf d) 64 (int (length (buf d))) = Some (drop 64 (buf d))"
      using len by (simp add: slice_def)
    have s2: "copy_go (buf d) 0 (buflen d - 64) (drop 64 (buf d))
               = Some (take (nat (buflen d - 64)) (drop 64 (buf d))
                       @ drop (nat (buflen d - 64)) (buf d))"
      using len bl True by (auto simp: copy_go_def blake2s_BlockSize_def Let_def min_def)
    show ?thesis
      using True
      by (simp add: Let_def s1 s2 d1_def blake2s_last_block_def blake2s_BlockSize_def)
  qed
  have z: "zero_tail (buf d1) (buflen d1) (2 * blake2s_BlockSize - buflen d1)
            = Some (take (nat (buflen d1)) (buf d1)
                    @ replicate (nat (2 * blake2s_BlockSize - buflen d1)) 0)"
    using zero_tail_eq[of "buflen d1" "2 * blake2s_BlockSize - buflen d1" "buf d1"] bl1 le1 len1
    by (simp add: blake2s_BlockSize_def)
  show ?thesis
    unfolding blake2s_Sum_def first
    by (simp add: Let_def z blake2s_final_def d1_def[symmetric])
qed

section \<open>Package blake2s: \<open>Reset\<close>, \<open>New\<close> and \<open>NewKeyed\<close>\<close>

lemma blake2s_param_words:
  fixes w :: byte
  defines "p \<equiv> (replicate 64 (0::byte))[0 := 32, 1 := w, 2 := 1, 3 := 1]"
  shows "Uint32 (drop 0 p) = 0x01010020 OR push_bit 8 (ucast w)"
    and "0 < i \<Longrightarrow> i < 8 \<Longrightarrow> Uint32 (drop (i * 4) p) = 0"
proof -
  show "Uint32 (drop 0 p) = 0x01010020 OR push_bit 8 (ucast w)"
    by (simp add: Uint32_def p_def or.left_commute[of "32"]) (simp add: or.commute)
  assume "0 < i" "i < 8"
  then have "drop (i * 4) p = replicate (64 - i * 4) 0"
    by (simp add: p_def drop_update_cancel)
  then show "Uint32 (drop (i * 4) p) = 0"
    using \<open>i < 8\<close> by (simp add: Uint32_def)
qed

lemma blake2s_h_fold:
  fixes w :: byte
  shows "fold (\<lambda>i hh. hh[i := blake2s_iv ! i XOR
                 Uint32 (drop (i * 4)
                   ((replicate 64 0)[0 := 32, Suc 0 := w, 2 := 1, 3 := 1]))])
           [0..<8] (replicate 8 0)
         = (blake2s_iv ! 0 XOR (0x01010020 OR push_bit 8 (ucast w))) # tl blake2s_iv"
proof -
  define p where "p = (replicate 64 (0::byte))[0 := 32, 1 := w, 2 := 1, 3 := 1]"
  have w: "Uint32 p = 0x01010020 OR push_bit 8 (ucast w)"
    "\<And>i. 0 < i \<Longrightarrow> i < 8 \<Longrightarrow> Uint32 (drop (i * 4) p) = 0"
    using blake2s_param_words[where w = w] by (simp_all add: p_def)
  have "fold (\<lambda>i hh. hh[i := blake2s_iv ! i XOR Uint32 (drop (i * 4) p)]) [0..<8]
          (replicate 8 0)
         = (blake2s_iv ! 0 XOR (0x01010020 OR push_bit 8 (ucast w))) # tl blake2s_iv"
    using w(1) w(2)[of 1] w(2)[of 2] w(2)[of 3] w(2)[of 4] w(2)[of 5] w(2)[of 6] w(2)[of 7]
    by (simp add: upt_8 blake2s_iv_def numeral_eq_Suc)
  then show ?thesis by (simp add: p_def)
qed

text \<open>
  \<open>Reset\<close> on \<open>new(digest)\<close> with key \<open>k\<close>: the key, cut to \<open>KeySize\<close> bytes and padded with
  zeros to one block, is written to \<open>blake2s_init k\<close>.
\<close>

lemma blake2s_Reset_new:
  "blake2s_Reset (blake2s_new_digest\<lparr>key := k\<rparr>) =
     (if min (keylen_of k) blake2s_KeySize > 0 then
        map_option fst (blake2s_Write (blake2s_init k)
          (take (nat (min (keylen_of k) blake2s_KeySize)) (bytes_of k)
           @ replicate (64 - nat (min (keylen_of k) blake2s_KeySize)) 0))
      else Some (blake2s_init k))"
proof -
  define kl where "kl = min (keylen_of k) blake2s_KeySize"
  have blk: "copy_go (replicate 64 (0::byte)) 0 64 (take (nat kl) (bytes_of k))
               = Some (take (nat kl) (bytes_of k) @ replicate (64 - nat kl) 0)"
  proof -
    have "nat kl \<le> length (bytes_of k)" "nat kl \<le> 32"
      by (auto simp: kl_def keylen_of_def bytes_of_def blake2s_KeySize_def split: option.splits)
    then show ?thesis by (simp add: copy_go_def Let_def min_def)
  qed
  have sl: "slice (bytes_of k) 0 kl = Some (take (nat kl) (bytes_of k))" if "0 < kl"
    using that by (auto simp: slice_def kl_def keylen_of_def bytes_of_def split: option.splits)
  have m: "map_option fst r = (case r of None \<Rightarrow> None | Some (d', _) \<Rightarrow> Some d')"
    for r :: "(uint32 digest \<times> int \<times> error) option"
    by (cases r) auto
  show ?thesis
  proof (cases "keylen_of k > blake2s_KeySize")
    case True
    then have e: "kl = blake2s_KeySize" by (simp add: kl_def)
    show ?thesis
      unfolding blake2s_Reset_def m
      using True sl blk
      by (simp add: Let_def blake2s_new_digest_def blake2s_BlockSize_def blake2s_h_fold
            blake2s_init_def e kl_def[symmetric] blake2s_KeySize_def replicate_2_upd)
  next
    case False
    then have e: "kl = keylen_of k" by (simp add: kl_def)
    show ?thesis
      unfolding blake2s_Reset_def m
      using False sl blk
      by (simp add: Let_def blake2s_new_digest_def blake2s_BlockSize_def blake2s_h_fold
            blake2s_init_def e kl_def[symmetric] replicate_2_upd)
  qed
qed

lemma blake2s_inv_init: "blake2s_inv (blake2s_init k)"
  by (simp add: blake2s_inv_def blake2s_shape_def blake2s_init_def blake2s_iv_def
        blake2s_BlockSize_def)

text \<open>
  What \<open>NewKeyed\<close> returns, for any key: it never fails, and a key longer than \<open>KeySize\<close>
  contributes its first \<open>KeySize\<close> bytes.
\<close>

lemma blake2s_NewKeyed_eq:
  "blake2s_NewKeyed k =
     Some (if min (keylen_of k) blake2s_KeySize > 0
           then (blake2s_init k)
                  \<lparr>buf := take (nat (min (keylen_of k) blake2s_KeySize)) (bytes_of k)
                          @ replicate (64 - nat (min (keylen_of k) blake2s_KeySize)) 0
                          @ replicate 64 0,
                   buflen := 64\<rparr>
           else blake2s_init k)"
proof (cases "min (keylen_of k) blake2s_KeySize > 0")
  case False
  then show ?thesis by (simp only: blake2s_NewKeyed_def blake2s_Reset_new if_False)
next
  case True
  define kl where "kl = nat (min (keylen_of k) blake2s_KeySize)"
  define block where "block = take kl (bytes_of k) @ replicate (64 - kl) (0::byte)"
  have kl: "kl \<le> length (bytes_of k)" "kl \<le> 32"
    by (auto simp: kl_def keylen_of_def bytes_of_def blake2s_KeySize_def split: option.splits)
  then have lb: "int (length block) = 64" by (simp add: block_def)
  have "blake2s_Write_loop (blake2s_init k) block 0 64
          = Some ((blake2s_init k)\<lparr>buf := take (nat (buflen (blake2s_init k))) (buf (blake2s_init k))
                       @ drop (nat 0) block
                       @ drop (nat (buflen (blake2s_init k) + 64)) (buf (blake2s_init k)),
                 buflen := buflen (blake2s_init k) + 64\<rparr>)"
    by (rule blake2s_Write_loop_tail[OF blake2s_inv_init])
       (simp_all add: lb blake2s_init_def blake2s_BlockSize_def)
  then have "blake2s_Write (blake2s_init k) block
          = Some ((blake2s_init k)\<lparr>buf := block @ replicate 64 0, buflen := 64\<rparr>, 0, None)"
    by (simp add: blake2s_Write_def lb blake2s_init_def)
  then have W: "blake2s_Write (blake2s_init k)
           (take (nat (min (keylen_of k) blake2s_KeySize)) (bytes_of k)
            @ replicate (64 - nat (min (keylen_of k) blake2s_KeySize)) 0)
          = Some ((blake2s_init k)
                  \<lparr>buf := take (nat (min (keylen_of k) blake2s_KeySize)) (bytes_of k)
                          @ replicate (64 - nat (min (keylen_of k) blake2s_KeySize)) 0
                          @ replicate 64 0,
                   buflen := 64\<rparr>, 0, None)"
    by (simp add: block_def kl_def)
  show ?thesis
    by (simp only: blake2s_NewKeyed_def blake2s_Reset_new True if_True W option.map fst_conv)
qed

lemma blake2s_New_eq: "blake2s_New = Some (blake2s_init None)"
  using blake2s_NewKeyed_eq[of None]
  by (simp add: blake2s_New_def blake2s_NewKeyed_def keylen_of_def blake2s_new_digest_def)

section \<open>Package blake2s: the key is read by \<open>Reset\<close> only\<close>

lemma blake2s_Write_key:
  "blake2s_Write (d\<lparr>key := k\<rparr>) b
     = map_option (\<lambda>(d', r). (d'\<lparr>key := k\<rparr>, r)) (blake2s_Write d b)"
  by (simp add: blake2s_Write_def blake2s_Write_loop_key split: option.splits)

lemma blake2s_Writes_key:
  "blake2s_Writes (d\<lparr>key := k\<rparr>) bs
     = map_option (\<lambda>d'. d'\<lparr>key := k\<rparr>) (blake2s_Writes d bs)"
  by (induction bs arbitrary: d) (auto simp: blake2s_Write_key split: option.splits)

lemma blake2s_Sum_key:
  "blake2s_Sum (d\<lparr>key := k\<rparr>) pre
     = map_option (\<lambda>(d', out). (d'\<lparr>key := k\<rparr>, out)) (blake2s_Sum d pre)"
  by (simp add: blake2s_Sum_def Let_def blake2s_compress_key blake2s_incrementCounter_key
        key_update_out split: option.splits)

lemma blake2s_run_key:
  "blake2s_run (Some (d\<lparr>key := k\<rparr>)) bs = blake2s_run (Some d) bs"
  by (auto simp: blake2s_run_def blake2s_Writes_key blake2s_Sum_key split: option.splits)

lemma blake2s_init_key:
  "min (keylen_of k) blake2s_KeySize = min (keylen_of k') blake2s_KeySize \<Longrightarrow>
   blake2s_init k = (blake2s_init k')\<lparr>key := k\<rparr>"
  by (simp add: blake2s_init_def)

section \<open>Package blake2s: a \<open>Write\<close> that fits, and the engine after \<open>Sum\<close>\<close>

lemma blake2s_Write_fits:
  assumes "blake2s_inv d" and "int (length b) \<le> 2 * blake2s_BlockSize - buflen d"
  shows "blake2s_Write d b =
           Some (d\<lparr>buf := take (nat (buflen d)) (buf d) @ b
                         @ drop (nat (buflen d) + length b) (buf d),
                   buflen := buflen d + int (length b)\<rparr>, 0, None)"
proof (cases "b = []")
  case True
  then show ?thesis by (simp add: blake2s_Write_def blake2s_Write_loop_done)
next
  case False
  from assms(1) have bl: "0 \<le> buflen d" by (simp add: blake2s_inv_def)
  have "blake2s_Write_loop d b 0 (int (length b)) =
         Some (d\<lparr>buf := take (nat (buflen d)) (buf d) @ drop (nat 0) b
                       @ drop (nat (buflen d + int (length b))) (buf d),
                 buflen := buflen d + int (length b)\<rparr>)"
    using False by (intro blake2s_Write_loop_tail[OF assms(1) _ assms(2)]) simp_all
  then show ?thesis
    using bl by (simp add: blake2s_Write_def nat_add_distrib)
qed

lemma blake2s_inv_fits:
  assumes "blake2s_inv d" and "int (length b) \<le> 2 * blake2s_BlockSize - buflen d"
  shows "blake2s_inv (d\<lparr>buf := take (nat (buflen d)) (buf d) @ b
                         @ drop (nat (buflen d) + length b) (buf d),
                   buflen := buflen d + int (length b)\<rparr>)"
proof -
  from assms have len: "length (buf d) = 128" and bl: "0 \<le> buflen d"
    and le: "nat (buflen d) + length b \<le> 128"
    by (auto simp: blake2s_inv_def blake2s_shape_def blake2s_BlockSize_def)
  have "length (take (nat (buflen d)) (buf d) @ b @ drop (nat (buflen d) + length b) (buf d))
          = 128"
    using len le by simp
  then show ?thesis
    using assms bl
    by (simp add: blake2s_inv_def blake2s_shape_def del: length_append length_take length_drop)
qed

lemma blake2s_last_block_fields [simp]:
  "f (blake2s_last_block d) = f d"
  "key (blake2s_last_block d) = key d"
  "ncompress (blake2s_last_block d)
     = ncompress d + (if buflen d > blake2s_BlockSize then 1 else 0)"
  "buflen (blake2s_last_block d)
     = (if buflen d > blake2s_BlockSize then buflen d - blake2s_BlockSize else buflen d)"
  by (simp_all add: blake2s_last_block_def Let_def)

lemma blake2s_final_fields [simp]:
  "f (blake2s_final d) = (f d)[0 := 0xffffffff]"
  "key (blake2s_final d) = key d"
  "ncompress (blake2s_final d)
     = ncompress d + (if buflen d > blake2s_BlockSize then 2 else 1)"
  "buflen (blake2s_final d)
     = (if buflen d > blake2s_BlockSize then buflen d - blake2s_BlockSize else buflen d)"
  by (simp_all add: blake2s_final_def Let_def)

lemma blake2s_inv_final:
  assumes "blake2s_inv d"
  shows "blake2s_inv (blake2s_final d)"
proof -
  define d1 where "d1 = blake2s_last_block d"
  have inv1: "blake2s_inv d1" and le1: "buflen d1 \<le> 64"
    using blake2s_inv_last_block[OF assms] by (simp_all add: d1_def blake2s_BlockSize_def)
  then have len1: "length (buf d1) = 128" and bl1: "0 \<le> buflen d1"
    by (auto simp: blake2s_inv_def blake2s_shape_def)
  have "nat (buflen d1) + nat (128 - buflen d1) = 128" using bl1 le1 by linarith
  then have "length (take (nat (buflen d1)) (buf d1) @ replicate (nat (128 - buflen d1)) 0) = 128"
    using len1 bl1 le1 by simp
  then show ?thesis
    using inv1 le1
    by (simp add: blake2s_final_def Let_def d1_def[symmetric] blake2s_inv_def blake2s_shape_def
          blake2s_BlockSize_def del: length_append length_take length_replicate)
qed

lemma blake2s_digest_length:
  "length (h d) = 8 \<Longrightarrow> length (concat (map (\<lambda>i. PutUint32 (h d ! i)) [0..<8])) = 32"
  by (simp add: upt_8 PutUint32_def)

section \<open>Package blake2s: \<open>compress\<close> and the compression function of the specification\<close>

lemma blake2s_G_mix:
  assumes "distinct [a, b, c, d]"
    and "a < length v" "b < length v" "c < length v" "d < length v"
  shows "blake2s_G m r i a b c d v =
     (case blake2s_mix (m ! (blake2s_sigma ! r ! (2 * i))) (m ! (blake2s_sigma ! r ! (2 * i + 1)))
             (v ! a, v ! b, v ! c, v ! d) of
        (a', b', c', d') \<Rightarrow> v[a := a', b := b', c := c', d := d'])"
proof (rule nth_equalityI)
  show "length (blake2s_G m r i a b c d v) =
     length (case blake2s_mix (m ! (blake2s_sigma ! r ! (2 * i)))
                   (m ! (blake2s_sigma ! r ! (2 * i + 1))) (v ! a, v ! b, v ! c, v ! d) of
        (a', b', c', d') \<Rightarrow> v[a := a', b := b', c := c', d := d'])"
    by (simp add: blake2s_G_def blake2s_mix_def Let_def)
next
  fix k assume "k < length (blake2s_G m r i a b c d v)"
  then have k: "k < length v" by (simp add: blake2s_G_def Let_def)
  show "blake2s_G m r i a b c d v ! k =
     (case blake2s_mix (m ! (blake2s_sigma ! r ! (2 * i)))
             (m ! (blake2s_sigma ! r ! (2 * i + 1))) (v ! a, v ! b, v ! c, v ! d) of
        (a', b', c', d') \<Rightarrow> v[a := a', b := b', c := c', d := d']) ! k"
    using assms k
    by (simp add: blake2s_G_def blake2s_mix_def Let_def nth_list_update)
qed

lemma length_blake2s_G [simp]: "length (blake2s_G m r i a b c d v) = length v"
  by (simp add: blake2s_G_def Let_def)

lemma length_blake2s_round [simp]: "length (blake2s_round m r v) = length v"
  by (simp add: blake2s_round_def Let_def)

text \<open>The closure \<open>rotr32\<close> is the rotation to the right, for the four amounts in use.\<close>

lemma rotr32_is_rotation:
  assumes "0 < c" and "c < 32"
  shows "drop_bit c (w::uint32) OR push_bit (32 - c) w = word_rotr c w"
proof (rule bit_word_eqI)
  fix n assume "n < LENGTH(32)"
  then have n: "n < 32" by simp
  show "bit (drop_bit c w OR push_bit (32 - c) w) n = bit (word_rotr c w) n"
  proof (cases "n + c < 32")
    case True
    then have "\<not> 32 - c \<le> n" by simp
    with True n show ?thesis by (simp add: bit_simps bit_word_rotr_iff add.commute)
  next
    case False
    then have m: "(n + c) mod 32 = n + c - 32"
      using n assms by (simp add: mod_if)
    have nb: "\<not> bit w (n + c)"
      using False bit_imp_le_length[of w "n + c"] by auto
    have "n - (32 - c) = n + c - 32" "32 - c \<le> n" using False assms by simp_all
    with False n m nb show ?thesis by (simp add: bit_simps bit_word_rotr_iff add.commute)
  qed
qed

lemma rotr32_word_rotr:
  "rotr32 w 16 = word_rotr 16 w" "rotr32 w 12 = word_rotr 12 w"
  "rotr32 w 8 = word_rotr 8 w" "rotr32 w 7 = word_rotr 7 w"
  using rotr32_is_rotation[of 16 w] rotr32_is_rotation[of 12 w]
    rotr32_is_rotation[of 8 w] rotr32_is_rotation[of 7 w]
  by (simp_all add: rotr32_def)

lemma blake2s_mix_spec: "blake2s_mix x y = spec_mix (16, 12, 8, 7) x y"
  by (simp add: blake2s_mix_def spec_mix_def rotr32_word_rotr fun_eq_iff)

lemma blake2s_G_spec:
  assumes "length v = 16"
  shows "blake2s_G m r 0 0 4 8 12 v = spec_G (16, 12, 8, 7) blake2s_sigma m r 0 v"
    and "blake2s_G m r 1 1 5 9 13 v = spec_G (16, 12, 8, 7) blake2s_sigma m r 1 v"
    and "blake2s_G m r 2 2 6 10 14 v = spec_G (16, 12, 8, 7) blake2s_sigma m r 2 v"
    and "blake2s_G m r 3 3 7 11 15 v = spec_G (16, 12, 8, 7) blake2s_sigma m r 3 v"
    and "blake2s_G m r 4 0 5 10 15 v = spec_G (16, 12, 8, 7) blake2s_sigma m r 4 v"
    and "blake2s_G m r 5 1 6 11 12 v = spec_G (16, 12, 8, 7) blake2s_sigma m r 5 v"
    and "blake2s_G m r 6 2 7 8 13 v = spec_G (16, 12, 8, 7) blake2s_sigma m r 6 v"
    and "blake2s_G m r 7 3 4 9 14 v = spec_G (16, 12, 8, 7) blake2s_sigma m r 7 v"
  using assms
  by (simp_all add: blake2s_G_mix spec_G_def spec_groups_def blake2s_mix_spec)

lemma blake2s_round_spec:
  assumes "length v = 16"
  shows "blake2s_round m r v = spec_round (16, 12, 8, 7) blake2s_sigma m r v"
proof -
  let ?g = "spec_G (16, 12, 8, 7) blake2s_sigma m r"
  define v1 where "v1 = ?g 0 v"
  define v2 where "v2 = ?g 1 v1"
  define v3 where "v3 = ?g 2 v2"
  define v4 where "v4 = ?g 3 v3"
  define v5 where "v5 = ?g 4 v4"
  define v6 where "v6 = ?g 5 v5"
  define v7 where "v7 = ?g 6 v6"
  have l: "length v1 = 16" "length v2 = 16" "length v3 = 16" "length v4 = 16"
    "length v5 = 16" "length v6 = 16" "length v7 = 16"
    using assms by (simp_all add: v1_def v2_def v3_def v4_def v5_def v6_def v7_def)
  have "blake2s_round m r v =
          blake2s_G m r 7 3 4 9 14 (blake2s_G m r 6 2 7 8 13 (blake2s_G m r 5 1 6 11 12
            (blake2s_G m r 4 0 5 10 15 (blake2s_G m r 3 3 7 11 15 (blake2s_G m r 2 2 6 10 14
              (blake2s_G m r 1 1 5 9 13 (blake2s_G m r 0 0 4 8 12 v)))))))"
    unfolding blake2s_round_def Let_def ..
  also have "blake2s_G m r 0 0 4 8 12 v = v1"
    unfolding v1_def by (rule blake2s_G_spec(1)[OF assms])
  also have "blake2s_G m r 1 1 5 9 13 v1 = v2"
    unfolding v2_def by (rule blake2s_G_spec(2)[OF l(1)])
  also have "blake2s_G m r 2 2 6 10 14 v2 = v3"
    unfolding v3_def by (rule blake2s_G_spec(3)[OF l(2)])
  also have "blake2s_G m r 3 3 7 11 15 v3 = v4"
    unfolding v4_def by (rule blake2s_G_spec(4)[OF l(3)])
  also have "blake2s_G m r 4 0 5 10 15 v4 = v5"
    unfolding v5_def by (rule blake2s_G_spec(5)[OF l(4)])
  also have "blake2s_G m r 5 1 6 11 12 v5 = v6"
    unfolding v6_def by (rule blake2s_G_spec(6)[OF l(5)])
  also have "blake2s_G m r 6 2 7 8 13 v6 = v7"
    unfolding v7_def by (rule blake2s_G_spec(7)[OF l(6)])
  also have "blake2s_G m r 7 3 4 9 14 v7 = ?g 7 v7"
    by (rule blake2s_G_spec(8)[OF l(7)])
  also have "?g 7 v7 = spec_round (16, 12, 8, 7) blake2s_sigma m r v"
    unfolding spec_round_def upt_8 v1_def v2_def v3_def v4_def v5_def v6_def v7_def
    by (simp only: fold_simps o_apply)
  finally show ?thesis .
qed

lemma blake2s_rounds_spec:
  "length v = 16 \<Longrightarrow>
   fold (blake2s_round m) rs v = fold (spec_round (16, 12, 8, 7) blake2s_sigma m) rs v"
proof (induction rs arbitrary: v)
  case Nil
  then show ?case by simp
next
  case (Cons r rs)
  have "length (blake2s_round m r v) = 16" using Cons.prems by simp
  from Cons.IH[OF this] show ?case
    by (simp add: blake2s_round_spec[OF Cons.prems])
qed

lemma blake2s_v_init_spec:
  assumes "length (h d) = 8"
  shows "blake2s_v_init d = spec_work_vector blake2s_iv d"
proof -
  from assms obtain h0 h1 h2 h3 h4 h5 h6 h7 where hd: "h d = [h0, h1, h2, h3, h4, h5, h6, h7]"
    by (auto simp: length_Suc_conv numeral_eq_Suc)
  have r: "replicate 16 (0::uint32) = [0, 0, 0, 0, 0, 0, 0, 0, 0, 0, 0, 0, 0, 0, 0, 0]"
    by (simp add: numeral_eq_Suc)
  show ?thesis
    unfolding blake2s_v_init_def spec_work_vector_def Let_def upt_8 r hd
    by (simp add: blake2s_iv_def numeral_eq_Suc)
qed

lemma blake2s_h_update_spec:
  assumes "length hh = 8"
  shows "fold (\<lambda>i hh. hh[i := hh ! i XOR v ! i XOR v ! (i + 8)]) [0..<8] hh
         = map (\<lambda>i. hh ! i XOR v ! i XOR v ! (i + 8)) [0..<8]"
proof -
  from assms obtain h0 h1 h2 h3 h4 h5 h6 h7 where hd: "hh = [h0, h1, h2, h3, h4, h5, h6, h7]"
    by (auto simp: length_Suc_conv numeral_eq_Suc)
  show ?thesis unfolding hd upt_8 by simp
qed

text \<open>
  \<open>compress\<close> changes the chaining value to that of the specification, and nothing else
  of the struct.
\<close>

lemma blake2s_compress_spec:
  assumes "blake2s_shape d"
  shows "blake2s_compress d =
           d\<lparr>h := spec_compress_h 10 (16, 12, 8, 7) blake2s_sigma blake2s_iv
                     (blake2s_m d) d,
             ncompress := ncompress d + 1\<rparr>"
proof -
  from assms have lh: "length (h d) = 8" by (simp add: blake2s_shape_def)
  have lv: "length (spec_work_vector blake2s_iv d) = 16"
    using lh by (simp add: spec_work_vector_def blake2s_iv_def)
  show ?thesis
    unfolding blake2s_compress_def spec_compress_h_def Let_def
    by (simp only: blake2s_v_init_spec[OF lh] blake2s_rounds_spec[OF lv]
          blake2s_h_update_spec[OF lh])
qed

section \<open>Package blake2s: where \<open>Write\<close> panics\<close>

text \<open>
  The first branch of the loop slices \<open>buf[offset:fill]\<close>. Once \<open>offset\<close> has passed \<open>fill\<close>
  the slice expression is out of range.
\<close>

lemma blake2s_Write_loop_panic:
  assumes "2 * blake2s_BlockSize - buflen d < inlen" and "0 < inlen"
    and "2 * blake2s_BlockSize - buflen d < offset"
  shows "blake2s_Write_loop d b offset inlen = None"
  using assms by (subst blake2s_Write_loop.simps) (simp add: Let_def slice_def)

text \<open>
  So a single \<open>Write\<close> panics whenever the buffer holds less than a block and the input
  is long enough for the loop to take its first branch twice.
\<close>

lemma blake2s_Write_panics:
  assumes "blake2s_inv d" and "buflen d < blake2s_BlockSize"
    and "3 * blake2s_BlockSize - buflen d < int (length b)"
  shows "blake2s_Write d b = None"
proof -
  define fill where "fill = 2 * blake2s_BlockSize - buflen d"
  have fill: "64 < fill" "fill + 64 < int (length b)"
    using assms(2,3) by (simp_all add: fill_def blake2s_BlockSize_def)
  have "blake2s_Write_loop d b 0 (int (length b))
          = blake2s_Write_loop (blake2s_flush d (take (nat fill) b)) b (0 + fill)
              (int (length b) - fill)"
    unfolding fill_def using assms(1) fill(2)
    by (intro blake2s_Write_loop_flush) (simp_all add: fill_def)
  also have "\<dots> = None"
    using fill by (intro blake2s_Write_loop_panic) (simp_all add: blake2s_BlockSize_def)
  finally show ?thesis by (simp add: blake2s_Write_def)
qed

section \<open>Package blake2b: evaluating \<open>compress\<close> on given words\<close>

text \<open>
  The lemmas of this section put \<open>compress\<close> in a form that rewrites a block of given words
  to the chaining value: the rotations with the bits that leave the word cut off first, the
  sums reduced to 64 bits, and \<open>G\<close> on a work vector of sixteen named words.
\<close>

lemma rotr64_take_bit:
  "c \<le> 64 \<Longrightarrow> drop_bit c (w::uint64) OR push_bit (64 - c) w
     = drop_bit c w OR push_bit (64 - c) (take_bit c w)"
  by (rule bit_word_eqI) (auto simp: bit_simps)

lemma rotr64_eval:
  "rotr64 w 32 = drop_bit 32 w OR push_bit 32 (take_bit 32 w)"
  "rotr64 w 24 = drop_bit 24 w OR push_bit 40 (take_bit 24 w)"
  "rotr64 w 16 = drop_bit 16 w OR push_bit 48 (take_bit 16 w)"
  "rotr64 w 63 = drop_bit 63 w OR push_bit 1 (take_bit 63 w)"
  using rotr64_take_bit[of 32 w] rotr64_take_bit[of 24 w] rotr64_take_bit[of 16 w]
    rotr64_take_bit[of 63 w]
  by (simp_all add: rotr64_def)

lemma mask64: "(w :: uint64) AND 0xffffffffffffffff = w"
proof -
  have e: "(0xffffffffffffffff :: uint64) = - 1" by simp
  show ?thesis unfolding e by simp
qed

lemma blake2b_mix_eval:
  "blake2b_mix x y (a, b, c, d) =
     (let a = (a + b + x) AND 0xffffffffffffffff; d = rotr64 (d XOR a) 32;
          c = (c + d) AND 0xffffffffffffffff; b = rotr64 (b XOR c) 24;
          a = (a + b + y) AND 0xffffffffffffffff; d = rotr64 (d XOR a) 16;
          c = (c + d) AND 0xffffffffffffffff; b = rotr64 (b XOR c) 63
      in (a, b, c, d))"
  by (simp add: blake2b_mix_def mask64)

lemma blake2b_G_eval:
  fixes v0 :: uint64
  shows "blake2b_G m r 0 0 4 8 12
       [v0, v1, v2, v3, v4, v5, v6, v7, v8, v9, v10, v11, v12, v13, v14, v15] =
      (case blake2b_mix (m ! (blake2b_sigma ! r ! 0)) (m ! (blake2b_sigma ! r ! 1))
              (v0, v4, v8, v12) of
         (a, b, c, d) \<Rightarrow>
           [a, v1, v2, v3, b, v5, v6, v7, c, v9, v10, v11, d, v13, v14, v15])"
    and "blake2b_G m r (Suc 0) (Suc 0) 5 9 13
       [v0, v1, v2, v3, v4, v5, v6, v7, v8, v9, v10, v11, v12, v13, v14, v15] =
      (case blake2b_mix (m ! (blake2b_sigma ! r ! 2)) (m ! (blake2b_sigma ! r ! 3))
              (v1, v5, v9, v13) of
         (a, b, c, d) \<Rightarrow>
           [v0, a, v2, v3, v4, b, v6, v7, v8, c, v10, v11, v12, d, v14, v15])"
    and "blake2b_G m r 2 2 6 10 14
       [v0, v1, v2, v3, v4, v5, v6, v7, v8, v9, v10, v11, v12, v13, v14, v15] =
      (case blake2b_mix (m ! (blake2b_sigma ! r ! 4)) (m ! (blake2b_sigma ! r ! 5))
              (v2, v6, v10, v14) of
         (a, b, c, d) \<Rightarrow>
           [v0, v1, a, v3, v4, v5, b, v7, v8, v9, c, v11, v12, v13, d, v15])"
    and "blake2b_G m r 3 3 7 11 15
       [v0, v1, v2, v3, v4, v5, v6, v7, v8, v9, v10, v11, v12, v13, v14, v15] =
      (case blake2b_mix (m ! (blake2b_sigma ! r ! 6)) (m ! (blake2b_sigma ! r ! 7))
              (v3, v7, v11, v15) of
         (a, b, c, d) \<Rightarrow>
           [v0, v1, v2, a, v4, v5, v6, b, v8, v9, v10, c, v12, v13, v14, d])"
    and "blake2b_G m r 4 0 5 10 15
       [v0, v1, v2, v3, v4, v5, v6, v7, v8, v9, v10, v11, v12, v13, v14, v15] =
      (case blake2b_mix (m ! (blake2b_sigma ! r ! 8)) (m ! (blake2b_sigma ! r ! 9))
              (v0, v5, v10, v15) of
         (a, b, c, d) \<Rightarrow>
           [a, v1, v2, v3, v4, b, v6, v7, v8, v9, c, v11, v12, v13, v14, d])"
    and "blake2b_G m r 5 (Suc 0) 6 11 12
       [v0, v1, v2, v3, v4, v5, v6, v7, v8, v9, v10, v11, v12, v13, v14, v15] =
      (case blake2b_mix (m ! (blake2b_sigma ! r ! 10)) (m ! (blake2b_sigma ! r ! 11))
              (v1, v6, v11, v12) of
         (a, b, c, d) \<Rightarrow>
           [v0, a, v2, v3, v4, v5, b, v7, v8, v9, v10, c, d, v13, v14, v15])"
    and "blake2b_G m r 6 2 7 8 13
       [v0, v1, v2, v3, v4, v5, v6, v7, v8, v9, v10, v11, v12, v13, v14, v15] =
      (case blake2b_mix (m ! (blake2b_sigma ! r ! 12)) (m ! (blake2b_sigma ! r ! 13))
              (v2, v7, v8, v13) of
         (a, b, c, d) \<Rightarrow>
           [v0, v1, a, v3, v4, v5, v6, b, c, v9, v10, v11, v12, d, v14, v15])"
    and "blake2b_G m r 7 3 4 9 14
       [v0, v1, v2, v3, v4, v5, v6, v7, v8, v9, v10, v11, v12, v13, v14, v15] =
      (case blake2b_mix (m ! (blake2b_sigma ! r ! 14)) (m ! (blake2b_sigma ! r ! 15))
              (v3, v4, v9, v14) of
         (a, b, c, d) \<Rightarrow>
           [v0, v1, v2, a, b, v5, v6, v7, v8, c, v10, v11, v12, v13, d, v15])"
  by (simp_all add: blake2b_G_mix split: prod.splits)

text \<open>The state of \<open>New()\<close>, with the parameter word folded into \<open>h[0]\<close>.\<close>

lemma blake2b_init_None:
  "blake2b_init None =
     \<lparr>h =
        [0x6a09e667f2bdc948, 0xbb67ae8584caa73b, 0x3c6ef372fe94f82b, 0xa54ff53a5f1d36f1,
         0x510e527fade682d1, 0x9b05688c2b3e6c1f, 0x1f83d9abfb41bd6b, 0x5be0cd19137e2179],
      t = [0, 0], f = [0, 0], buf = replicate 256 0, buflen = 0, key = None, ncompress = 0\<rparr>"
  by (simp add: blake2b_init_def blake2b_iv_def keylen_of_def blake2b_KeySize_def)

text \<open>
  One call of \<open>compress\<close>, from the message words \<open>m\<close>, the work vector \<open>v0\<close> it starts from
  and the work vector after the rounds.
\<close>

lemma blake2b_compress_eval:
  assumes "blake2b_m d = m" and "h d = [h0, h1, h2, h3, h4, h5, h6, h7]"
    and "t d = [t0, t1]" and "f d = [f0, f1]"
    and "[h0, h1, h2, h3, h4, h5, h6, h7, 0x6a09e667f3bcc908, 0xbb67ae8584caa73b, 0x3c6ef372fe94f82b, 0xa54ff53a5f1d36f1,
          t0 XOR 0x510e527fade682d1, t1 XOR 0x9b05688c2b3e6c1f, f0 XOR 0x1f83d9abfb41bd6b, f1 XOR 0x5be0cd19137e2179] = v0"
    and "fold (blake2b_round m) [0..<12] v0 = [w0, w1, w2, w3, w4, w5, w6, w7, w8, w9, w10, w11, w12, w13, w14, w15]"
  shows "h (blake2b_compress d) =
           [h0 XOR w0 XOR w8, h1 XOR w1 XOR w9, h2 XOR w2 XOR w10, h3 XOR w3 XOR w11,
            h4 XOR w4 XOR w12, h5 XOR w5 XOR w13, h6 XOR w6 XOR w14, h7 XOR w7 XOR w15]"
proof -
  have "length (h d) = 8" by (simp add: assms(2))
  then have "blake2b_v_init d = v0"
    unfolding assms(5)[symmetric]
    by (simp add: blake2b_v_init_spec spec_work_vector_def assms(2,3,4) blake2b_iv_def)
  then show ?thesis
    unfolding blake2b_compress_def Let_def
    by (simp add: assms(1,6)) (simp add: assms(2) upt_8)
qed

section \<open>Package blake2s: evaluating \<open>compress\<close> on given words\<close>

text \<open>
  The lemmas of this section put \<open>compress\<close> in a form that rewrites a block of given words
  to the chaining value: the rotations with the bits that leave the word cut off first, the
  sums reduced to 32 bits, and \<open>G\<close> on a work vector of sixteen named words.
\<close>

lemma rotr32_take_bit:
  "c \<le> 32 \<Longrightarrow> drop_bit c (w::uint32) OR push_bit (32 - c) w
     = drop_bit c w OR push_bit (32 - c) (take_bit c w)"
  by (rule bit_word_eqI) (auto simp: bit_simps)

lemma rotr32_eval:
  "rotr32 w 16 = drop_bit 16 w OR push_bit 16 (take_bit 16 w)"
  "rotr32 w 12 = drop_bit 12 w OR push_bit 20 (take_bit 12 w)"
  "rotr32 w 8 = drop_bit 8 w OR push_bit 24 (take_bit 8 w)"
  "rotr32 w 7 = drop_bit 7 w OR push_bit 25 (take_bit 7 w)"
  using rotr32_take_bit[of 16 w] rotr32_take_bit[of 12 w] rotr32_take_bit[of 8 w]
    rotr32_take_bit[of 7 w]
  by (simp_all add: rotr32_def)

lemma mask32: "(w :: uint32) AND 0xffffffff = w"
proof -
  have e: "(0xffffffff :: uint32) = - 1" by simp
  show ?thesis unfolding e by simp
qed

lemma blake2s_mix_eval:
  "blake2s_mix x y (a, b, c, d) =
     (let a = (a + b + x) AND 0xffffffff; d = rotr32 (d XOR a) 16;
          c = (c + d) AND 0xffffffff; b = rotr32 (b XOR c) 12;
          a = (a + b + y) AND 0xffffffff; d = rotr32 (d XOR a) 8;
          c = (c + d) AND 0xffffffff; b = rotr32 (b XOR c) 7
      in (a, b, c, d))"
  by (simp add: blake2s_mix_def mask32)

lemma blake2s_G_eval:
  fixes v0 :: uint32
  shows "blake2s_G m r 0 0 4 8 12
       [v0, v1, v2, v3, v4, v5, v6, v7, v8, v9, v10, v11, v12, v13, v14, v15] =
      (case blake2s_mix (m ! (blake2s_sigma ! r ! 0)) (m ! (blake2s_sigma ! r ! 1))
              (v0, v4, v8, v12) of
         (a, b, c, d) \<Rightarrow>
           [a, v1, v2, v3, b, v5, v6, v7, c, v9, v10, v11, d, v13, v14, v15])"
    and "blake2s_G m r (Suc 0) (Suc 0) 5 9 13
       [v0, v1, v2, v3, v4, v5, v6, v7, v8, v9, v10, v11, v12, v13, v14, v15] =
      (case blake2s_mix (m ! (blake2s_sigma ! r ! 2)) (m ! (blake2s_sigma ! r ! 3))
              (v1, v5, v9, v13) of
         (a, b, c, d) \<Rightarrow>
           [v0, a, v2, v3, v4, b, v6, v7, v8, c, v10, v11, v12, d, v14, v15])"
    and "blake2s_G m r 2 2 6 10 14
       [v0, v1, v2, v3, v4, v5, v6, v7, v8, v9, v10, v11, v12, v13, v14, v15] =
      (case blake2s_mix (m ! (blake2s_sigma ! r ! 4)) (m ! (blake2s_sigma ! r ! 5))
              (v2, v6, v10, v14) of
         (a, b, c, d) \<Rightarrow>
           [v0, v1, a, v3, v4, v5, b, v7, v8, v9, c, v11, v12, v13, d, v15])"
    and "blake2s_G m r 3 3 7 11 15
       [v0, v1, v2, v3, v4, v5, v6, v7, v8, v9, v10, v11, v12, v13, v14, v15] =
      (case blake2s_mix (m ! (blake2s_sigma ! r ! 6)) (m ! (blake2s_sigma ! r ! 7))
              (v3, v7, v11, v15) of
         (a, b, c, d) \<Rightarrow>
           [v0, v1, v2, a, v4, v5, v6, b, v8, v9, v10, c, v12, v13, v14, d])"
    and "blake2s_G m r 4 0 5 10 15
       [v0, v1, v2, v3, v4, v5, v6, v7, v8, v9, v10, v11, v12, v13, v14, v15] =
      (case blake2s_mix (m ! (blake2s_sigma ! r ! 8)) (m ! (blake2s_sigma ! r ! 9))
              (v0, v5, v10, v15) of
         (a, b, c, d) \<Rightarrow>
           [a, v1, v2, v3, v4, b, v6, v7, v8, v9, c, v11, v12, v13, v14, d])"
    and "blake2s_G m r 5 (Suc 0) 6 11 12
       [v0, v1, v2, v3, v4, v5, v6, v7, v8, v9, v10, v11, v12, v13, v14, v15] =
      (case blake2s_mix (m ! (blake2s_sigma ! r ! 10)) (m ! (blake2s_sigma ! r ! 11))
              (v1, v6, v11, v12) of
         (a, b, c, d) \<Rightarrow>
           [v0, a, v2, v3, v4, v5, b, v7, v8, v9, v10, c, d, v13, v14, v15])"
    and "blake2s_G m r 6 2 7 8 13
       [v0, v1, v2, v3, v4, v5, v6, v7, v8, v9, v10, v11, v12, v13, v14, v15] =
      (case blake2s_mix (m ! (blake2s_sigma ! r ! 12)) (m ! (blake2s_sigma ! r ! 13))
              (v2, v7, v8, v13) of
         (a, b, c, d) \<Rightarrow>
           [v0, v1, a, v3, v4, v5, v6, b, c, v9, v10, v11, v12, d, v14, v15])"
    and "blake2s_G m r 7 3 4 9 14
       [v0, v1, v2, v3, v4, v5, v6, v7, v8, v9, v10, v11, v12, v13, v14, v15] =
      (case blake2s_mix (m ! (blake2s_sigma ! r ! 14)) (m ! (blake2s_sigma ! r ! 15))
              (v3, v4, v9, v14) of
         (a, b, c, d) \<Rightarrow>
           [v0, v1, v2, a, b, v5, v6, v7, v8, c, v10, v11, v12, v13, d, v15])"
  by (simp_all add: blake2s_G_mix split: prod.splits)

text \<open>The state of \<open>New()\<close>, with the parameter word folded into \<open>h[0]\<close>.\<close>

lemma blake2s_init_None:
  "blake2s_init None =
     \<lparr>h =
        [0x6b08e647, 0xbb67ae85, 0x3c6ef372, 0xa54ff53a, 0x510e527f, 0x9b05688c, 0x1f83d9ab,
         0x5be0cd19],
      t = [0, 0], f = [0, 0], buf = replicate 128 0, buflen = 0, key = None, ncompress = 0\<rparr>"
  by (simp add: blake2s_init_def blake2s_iv_def keylen_of_def blake2s_KeySize_def)

text \<open>
  One call of \<open>compress\<close>, from the message words \<open>m\<close>, the work vector \<open>v0\<close> it starts from
  and the work vector after the rounds.
\<close>

lemma blake2s_compress_eval:
  assumes "blake2s_m d = m" and "h d = [h0, h1, h2, h3, h4, h5, h6, h7]"
    and "t d = [t0, t1]" and "f d = [f0, f1]"
    and "[h0, h1, h2, h3, h4, h5, h6, h7, 0x6a09e667, 0xbb67ae85, 0x3c6ef372, 0xa54ff53a,
          t0 XOR 0x510e527f, t1 XOR 0x9b05688c, f0 XOR 0x1f83d9ab, f1 XOR 0x5be0cd19] = v0"
    and "fold (blake2s_round m) [0..<10] v0 = [w0, w1, w2, w3, w4, w5, w6, w7, w8, w9, w10, w11, w12, w13, w14, w15]"
  shows "h (blake2s_compress d) =
           [h0 XOR w0 XOR w8, h1 XOR w1 XOR w9, h2 XOR w2 XOR w10, h3 XOR w3 XOR w11,
            h4 XOR w4 XOR w12, h5 XOR w5 XOR w13, h6 XOR w6 XOR w14, h7 XOR w7 XOR w15]"
proof -
  have "length (h d) = 8" by (simp add: assms(2))
  then have "blake2s_v_init d = v0"
    unfolding assms(5)[symmetric]
    by (simp add: blake2s_v_init_spec spec_work_vector_def assms(2,3,4) blake2s_iv_def)
  then show ?thesis
    unfolding blake2s_compress_def Let_def
    by (simp add: assms(1,6)) (simp add: assms(2) upt_8)
qed

section \<open>Package blake2b: a long \<open>Write\<close> evaluated\<close>

text \<open>
  \<open>compress\<close>, the first branch of the loop of \<open>Write\<close> and the two steps of \<open>Sum\<close>, each from
  the engine it starts on to the engine it leaves, for engines given field by field.
\<close>

lemma replicate_join:
  "replicate m x @ replicate n x = replicate (m + n) x"
  "replicate m x @ replicate n x @ ys = replicate (m + n) x @ ys"
  "x # replicate n x = replicate (Suc n) x"
  by (simp_all add: replicate_add)

lemma blake2b_compress_rec:
  assumes "blake2b_m d = m" and "h d = [h0, h1, h2, h3, h4, h5, h6, h7]"
    and "t d = [t0, t1]" and "f d = [f0, f1]"
    and "[h0, h1, h2, h3, h4, h5, h6, h7, 0x6a09e667f3bcc908, 0xbb67ae8584caa73b, 0x3c6ef372fe94f82b, 0xa54ff53a5f1d36f1,
          t0 XOR 0x510e527fade682d1, t1 XOR 0x9b05688c2b3e6c1f, f0 XOR 0x1f83d9abfb41bd6b, f1 XOR 0x5be0cd19137e2179] = v0"
    and "fold (blake2b_round m) [0..<12] v0 = [w0, w1, w2, w3, w4, w5, w6, w7, w8, w9, w10, w11, w12, w13, w14, w15]"
  shows "blake2b_compress d =
           d\<lparr>h := [h0 XOR w0 XOR w8, h1 XOR w1 XOR w9, h2 XOR w2 XOR w10, h3 XOR w3 XOR w11,
                   h4 XOR w4 XOR w12, h5 XOR w5 XOR w13, h6 XOR w6 XOR w14, h7 XOR w7 XOR w15],
             ncompress := ncompress d + 1\<rparr>"
proof -
  have "blake2b_compress d = d\<lparr>h := h (blake2b_compress d), ncompress := ncompress d + 1\<rparr>"
    by (simp add: blake2b_compress_def Let_def)
  then show ?thesis
    by (simp add: blake2b_compress_eval[OF assms])
qed

lemma blake2b_flush_rec:
  assumes "blake2b_incrementCounter
             (d\<lparr>buf := take (nat (buflen d)) (buf d) @ src, buflen := 2 * blake2b_BlockSize\<rparr>)
             (word_of_int blake2b_BlockSize) = X"
    and "blake2b_compress X = Y"
    and "Y\<lparr>buf := drop (nat blake2b_BlockSize) (buf Y) @ drop (nat blake2b_BlockSize) (buf Y),
           buflen := blake2b_BlockSize\<rparr> = S"
  shows "blake2b_flush d src = S"
  unfolding blake2b_flush_def Let_def assms(1) assms(2) by (rule assms(3))

lemma blake2b_last_block_rec:
  assumes "blake2b_BlockSize < buflen d"
    and "blake2b_incrementCounter d (word_of_int blake2b_BlockSize) = X"
    and "blake2b_compress X = Y"
    and "Y\<lparr>buflen := buflen d - blake2b_BlockSize,
           buf := take (nat (buflen d - blake2b_BlockSize)) (drop (nat blake2b_BlockSize) (buf d))
                  @ drop (nat (buflen d - blake2b_BlockSize)) (buf d)\<rparr> = S"
  shows "blake2b_last_block d = S"
  using assms(1) unfolding blake2b_last_block_def Let_def assms(2) assms(3)
  by (simp add: assms(4))

lemma blake2b_final_rec:
  assumes "blake2b_last_block d = d1"
    and "(blake2b_incrementCounter d1 (word_of_int (buflen d1)))
           \<lparr>f := (f (blake2b_incrementCounter d1 (word_of_int (buflen d1))))
                   [0 := 0xffffffffffffffff],
            buf := take (nat (buflen d1)) (buf d1)
                   @ replicate (nat (2 * blake2b_BlockSize - buflen d1)) 0\<rparr> = X"
    and "blake2b_compress X = Y"
  shows "blake2b_final d = Y"
  unfolding blake2b_final_def Let_def assms(1) assms(2) by (rule assms(3))

lemma blake2b_rounds_1:
  "fold (blake2b_round
          [0x101010101010101, 0x101010101010101, 0x101010101010101, 0x101010101010101,
           0x101010101010101, 0x101010101010101, 0x101010101010101, 0x101010101010101,
           0x101010101010101, 0x101010101010101, 0x101010101010101, 0x101010101010101,
           0x101010101010101, 0x101010101010101, 0x101010101010101, 0x101010101010101]) [0..<12]
          [0x6a09e667f2bdc948, 0xbb67ae8584caa73b, 0x3c6ef372fe94f82b, 0xa54ff53a5f1d36f1,
           0x510e527fade682d1, 0x9b05688c2b3e6c1f, 0x1f83d9abfb41bd6b, 0x5be0cd19137e2179,
           0x6a09e667f3bcc908, 0xbb67ae8584caa73b, 0x3c6ef372fe94f82b, 0xa54ff53a5f1d36f1,
           0x510e527fade68251, 0x9b05688c2b3e6c1f, 0x1f83d9abfb41bd6b, 0x5be0cd19137e2179]
   =
          [0xf45389299b74165b, 0xa98a19d37ab0649a, 0x4a86c35c66de0a64, 0x42e5e1928b35cab8,
           0x4d05e53500c907a2, 0x4e061a6419b51cb8, 0xcb3b7e98992b5720, 0x9b3020c76bdff895,
           0x5875ce781efdb550, 0xb1d46f3f5cd8f07b, 0x1d5ab4176472b292, 0xade324bd034053cb,
           0x392593a085882f3b, 0xf49916ba12450232, 0x5bbb431d2a36b13b, 0xb7e6a86c99a7163e]"
  by (simp add: upt_12 blake2b_round_def Let_def blake2b_G_eval blake2b_mix_eval rotr64_eval
        blake2b_sigma_def cong: let_weak_cong)

lemma blake2b_compress_1:
  "blake2b_compress
    \<lparr>h =
         [0x6a09e667f2bdc948, 0xbb67ae8584caa73b, 0x3c6ef372fe94f82b, 0xa54ff53a5f1d36f1,
          0x510e527fade682d1, 0x9b05688c2b3e6c1f, 0x1f83d9abfb41bd6b, 0x5be0cd19137e2179],
      t = [0x80, 0], f = [0, 0], buf = replicate 256 1,
      buflen = 256, key = None, ncompress = 0\<rparr> =
    \<lparr>h =
         [0xc62fa13677346a43, 0xa339d869a2a233da, 0x6bb28439fc3840dd, 0x4a493015d768af82,
          0x252e24ea28a7aa48, 0x219a645220ce7295, 0x8f03e42e485c5b70, 0x773645b2e106cfd2],
      t = [0x80, 0], f = [0, 0], buf = replicate 256 1,
      buflen = 256, key = None, ncompress = 1\<rparr>"
proof -
  define X :: "uint64 digest" where "X =
    \<lparr>h =
         [0x6a09e667f2bdc948, 0xbb67ae8584caa73b, 0x3c6ef372fe94f82b, 0xa54ff53a5f1d36f1,
          0x510e527fade682d1, 0x9b05688c2b3e6c1f, 0x1f83d9abfb41bd6b, 0x5be0cd19137e2179],
      t = [0x80, 0], f = [0, 0], buf = replicate 256 1,
      buflen = 256, key = None, ncompress = 0\<rparr>"
  have mX: "blake2b_m X =
          [0x101010101010101, 0x101010101010101, 0x101010101010101, 0x101010101010101,
           0x101010101010101, 0x101010101010101, 0x101010101010101, 0x101010101010101,
           0x101010101010101, 0x101010101010101, 0x101010101010101, 0x101010101010101,
           0x101010101010101, 0x101010101010101, 0x101010101010101, 0x101010101010101]"
    by (simp add: X_def blake2b_m_def upt_16 Uint64_def nth_append)
  have hX: "h X =
          [0x6a09e667f2bdc948, 0xbb67ae8584caa73b, 0x3c6ef372fe94f82b, 0xa54ff53a5f1d36f1,
           0x510e527fade682d1, 0x9b05688c2b3e6c1f, 0x1f83d9abfb41bd6b, 0x5be0cd19137e2179]"
    and tX: "t X = [0x80, 0]" and fX: "f X = [0, 0]"
    by (simp_all add: X_def)
  have v0: "(
          [0x6a09e667f2bdc948, 0xbb67ae8584caa73b,
           0x3c6ef372fe94f82b, 0xa54ff53a5f1d36f1,
           0x510e527fade682d1, 0x9b05688c2b3e6c1f,
           0x1f83d9abfb41bd6b, 0x5be0cd19137e2179,
           0x6a09e667f3bcc908, 0xbb67ae8584caa73b,
           0x3c6ef372fe94f82b, 0xa54ff53a5f1d36f1,
           128 XOR 0x510e527fade682d1, 0 XOR 0x9b05688c2b3e6c1f,
           0 XOR 0x1f83d9abfb41bd6b, 0 XOR 0x5be0cd19137e2179] :: uint64 list)
      =
          [0x6a09e667f2bdc948, 0xbb67ae8584caa73b, 0x3c6ef372fe94f82b, 0xa54ff53a5f1d36f1,
           0x510e527fade682d1, 0x9b05688c2b3e6c1f, 0x1f83d9abfb41bd6b, 0x5be0cd19137e2179,
           0x6a09e667f3bcc908, 0xbb67ae8584caa73b, 0x3c6ef372fe94f82b, 0xa54ff53a5f1d36f1,
           0x510e527fade68251, 0x9b05688c2b3e6c1f, 0x1f83d9abfb41bd6b, 0x5be0cd19137e2179]"
    by simp
  have "blake2b_compress X = X\<lparr>h :=
          [0xc62fa13677346a43, 0xa339d869a2a233da, 0x6bb28439fc3840dd, 0x4a493015d768af82,
           0x252e24ea28a7aa48, 0x219a645220ce7295, 0x8f03e42e485c5b70, 0x773645b2e106cfd2], ncompress := ncompress X + 1\<rparr>"
    by (rule blake2b_compress_rec[OF mX hX tX fX v0 blake2b_rounds_1, THEN trans]) simp
  then show ?thesis by (simp add: X_def)
qed

lemma blake2b_flush_1:
  "blake2b_flush
    \<lparr>h =
         [0x6a09e667f2bdc948, 0xbb67ae8584caa73b, 0x3c6ef372fe94f82b, 0xa54ff53a5f1d36f1,
          0x510e527fade682d1, 0x9b05688c2b3e6c1f, 0x1f83d9abfb41bd6b, 0x5be0cd19137e2179],
      t = [0, 0], f = [0, 0], buf = replicate 256 0,
      buflen = 0, key = None, ncompress = 0\<rparr>
    (replicate 256 1) =
    \<lparr>h =
         [0xc62fa13677346a43, 0xa339d869a2a233da, 0x6bb28439fc3840dd, 0x4a493015d768af82,
          0x252e24ea28a7aa48, 0x219a645220ce7295, 0x8f03e42e485c5b70, 0x773645b2e106cfd2],
      t = [0x80, 0], f = [0, 0], buf = replicate 256 1,
      buflen = 128, key = None, ncompress = 1\<rparr>"
  by (rule blake2b_flush_rec[OF _ blake2b_compress_1])
    (simp_all add: blake2b_incrementCounter_def Let_def blake2b_BlockSize_def replicate_join)

lemma blake2b_rounds_2:
  "fold (blake2b_round
          [0x101010101010101, 0x101010101010101, 0x101010101010101, 0x101010101010101,
           0x101010101010101, 0x101010101010101, 0x101010101010101, 0x101010101010101,
           0x101010101010101, 0x101010101010101, 0x101010101010101, 0x101010101010101,
           0x101010101010101, 0x101010101010101, 0x101010101010101, 0x101010101010101]) [0..<12]
          [0xc62fa13677346a43, 0xa339d869a2a233da, 0x6bb28439fc3840dd, 0x4a493015d768af82,
           0x252e24ea28a7aa48, 0x219a645220ce7295, 0x8f03e42e485c5b70, 0x773645b2e106cfd2,
           0x6a09e667f3bcc908, 0xbb67ae8584caa73b, 0x3c6ef372fe94f82b, 0xa54ff53a5f1d36f1,
           0x510e527fade683d1, 0x9b05688c2b3e6c1f, 0x1f83d9abfb41bd6b, 0x5be0cd19137e2179]
   =
          [0x6244aefc0a4bdca2, 0xa7b1e9f8dd9d8169, 0x889a614916595e28, 0xd49f1780ca276e35,
           0x56677b174f19a227, 0x30be9fa25553e2ac, 0x9decd67a88b51af1, 0x6371862fbae78d49,
           0x56289090c32a28a6, 0x7329a8644248021d, 0x951f1fe74a8a0d45, 0xba0bd1d27768a87c,
           0xb4117279a9945a56, 0xe17d966d574d0a0a, 0x72b9d53b38d821e0, 0x87064a4ec04bda5c]"
  by (simp add: upt_12 blake2b_round_def Let_def blake2b_G_eval blake2b_mix_eval rotr64_eval
        blake2b_sigma_def cong: let_weak_cong)

lemma blake2b_compress_2:
  "blake2b_compress
    \<lparr>h =
         [0xc62fa13677346a43, 0xa339d869a2a233da, 0x6bb28439fc3840dd, 0x4a493015d768af82,
          0x252e24ea28a7aa48, 0x219a645220ce7295, 0x8f03e42e485c5b70, 0x773645b2e106cfd2],
      t = [0x100, 0], f = [0, 0], buf = replicate 256 1,
      buflen = 256, key = None, ncompress = 1\<rparr> =
    \<lparr>h =
         [0xf2439f5abe559e47, 0x77a199f53d77b0ae, 0x7637fa97a0eb13b0, 0x24ddf6476a2769cb,
          0xc7582d84ce2a5239, 0xf0596d9d22d09a33, 0x6056e76ff8316061, 0x934189d39baa98c7],
      t = [0x100, 0], f = [0, 0], buf = replicate 256 1,
      buflen = 256, key = None, ncompress = 2\<rparr>"
proof -
  define X :: "uint64 digest" where "X =
    \<lparr>h =
         [0xc62fa13677346a43, 0xa339d869a2a233da, 0x6bb28439fc3840dd, 0x4a493015d768af82,
          0x252e24ea28a7aa48, 0x219a645220ce7295, 0x8f03e42e485c5b70, 0x773645b2e106cfd2],
      t = [0x100, 0], f = [0, 0], buf = replicate 256 1,
      buflen = 256, key = None, ncompress = 1\<rparr>"
  have mX: "blake2b_m X =
          [0x101010101010101, 0x101010101010101, 0x101010101010101, 0x101010101010101,
           0x101010101010101, 0x101010101010101, 0x101010101010101, 0x101010101010101,
           0x101010101010101, 0x101010101010101, 0x101010101010101, 0x101010101010101,
           0x101010101010101, 0x101010101010101, 0x101010101010101, 0x101010101010101]"
    by (simp add: X_def blake2b_m_def upt_16 Uint64_def nth_append)
  have hX: "h X =
          [0xc62fa13677346a43, 0xa339d869a2a233da, 0x6bb28439fc3840dd, 0x4a493015d768af82,
           0x252e24ea28a7aa48, 0x219a645220ce7295, 0x8f03e42e485c5b70, 0x773645b2e106cfd2]"
    and tX: "t X = [0x100, 0]" and fX: "f X = [0, 0]"
    by (simp_all add: X_def)
  have v0: "(
          [0xc62fa13677346a43, 0xa339d869a2a233da,
           0x6bb28439fc3840dd, 0x4a493015d768af82,
           0x252e24ea28a7aa48, 0x219a645220ce7295,
           0x8f03e42e485c5b70, 0x773645b2e106cfd2,
           0x6a09e667f3bcc908, 0xbb67ae8584caa73b,
           0x3c6ef372fe94f82b, 0xa54ff53a5f1d36f1,
           256 XOR 0x510e527fade682d1, 0 XOR 0x9b05688c2b3e6c1f,
           0 XOR 0x1f83d9abfb41bd6b, 0 XOR 0x5be0cd19137e2179] :: uint64 list)
      =
          [0xc62fa13677346a43, 0xa339d869a2a233da, 0x6bb28439fc3840dd, 0x4a493015d768af82,
           0x252e24ea28a7aa48, 0x219a645220ce7295, 0x8f03e42e485c5b70, 0x773645b2e106cfd2,
           0x6a09e667f3bcc908, 0xbb67ae8584caa73b, 0x3c6ef372fe94f82b, 0xa54ff53a5f1d36f1,
           0x510e527fade683d1, 0x9b05688c2b3e6c1f, 0x1f83d9abfb41bd6b, 0x5be0cd19137e2179]"
    by simp
  have "blake2b_compress X = X\<lparr>h :=
          [0xf2439f5abe559e47, 0x77a199f53d77b0ae, 0x7637fa97a0eb13b0, 0x24ddf6476a2769cb,
           0xc7582d84ce2a5239, 0xf0596d9d22d09a33, 0x6056e76ff8316061, 0x934189d39baa98c7], ncompress := ncompress X + 1\<rparr>"
    by (rule blake2b_compress_rec[OF mX hX tX fX v0 blake2b_rounds_2, THEN trans]) simp
  then show ?thesis by (simp add: X_def)
qed

lemma blake2b_flush_2:
  "blake2b_flush
    \<lparr>h =
         [0xc62fa13677346a43, 0xa339d869a2a233da, 0x6bb28439fc3840dd, 0x4a493015d768af82,
          0x252e24ea28a7aa48, 0x219a645220ce7295, 0x8f03e42e485c5b70, 0x773645b2e106cfd2],
      t = [0x80, 0], f = [0, 0], buf = replicate 256 1,
      buflen = 128, key = None, ncompress = 1\<rparr>
    (replicate 128 1) =
    \<lparr>h =
         [0xf2439f5abe559e47, 0x77a199f53d77b0ae, 0x7637fa97a0eb13b0, 0x24ddf6476a2769cb,
          0xc7582d84ce2a5239, 0xf0596d9d22d09a33, 0x6056e76ff8316061, 0x934189d39baa98c7],
      t = [0x100, 0], f = [0, 0], buf = replicate 256 1,
      buflen = 128, key = None, ncompress = 2\<rparr>"
  by (rule blake2b_flush_rec[OF _ blake2b_compress_2])
    (simp_all add: blake2b_incrementCounter_def Let_def blake2b_BlockSize_def replicate_join)

lemma blake2b_rounds_3:
  "fold (blake2b_round
          [0x101010101010101, 0x101010101010101, 0x101010101010101, 0x101010101010101,
           0x101010101010101, 0x101010101010101, 0x101010101010101, 0x101010101010101,
           0x101010101010101, 0x101010101010101, 0x101010101010101, 0x101010101010101,
           0x101010101010101, 0x101010101010101, 0x101010101010101, 0x101010101010101]) [0..<12]
          [0xf2439f5abe559e47, 0x77a199f53d77b0ae, 0x7637fa97a0eb13b0, 0x24ddf6476a2769cb,
           0xc7582d84ce2a5239, 0xf0596d9d22d09a33, 0x6056e76ff8316061, 0x934189d39baa98c7,
           0x6a09e667f3bcc908, 0xbb67ae8584caa73b, 0x3c6ef372fe94f82b, 0xa54ff53a5f1d36f1,
           0x510e527fade68351, 0x9b05688c2b3e6c1f, 0x1f83d9abfb41bd6b, 0x5be0cd19137e2179]
   =
          [0x476370b290468c54, 0x440e190808ed7f48, 0x126e1f00f893a17d, 0x392d3617759b1888,
           0x473483a678972fc7, 0xdfb461c498c326, 0xfce23c6c78c9309f, 0x5bc750bab4522b54,
           0xbdbae62e46184b39, 0x41fb34da63b2f1c5, 0xfb28c738984d37c6, 0x7a3fe442503f321a,
           0x5decb7ebef82a0aa, 0x9776582a97a255dd, 0xf046a2aff12c04f, 0xe7c0f297062045a3]"
  by (simp add: upt_12 blake2b_round_def Let_def blake2b_G_eval blake2b_mix_eval rotr64_eval
        blake2b_sigma_def cong: let_weak_cong)

lemma blake2b_compress_3:
  "blake2b_compress
    \<lparr>h =
         [0xf2439f5abe559e47, 0x77a199f53d77b0ae, 0x7637fa97a0eb13b0, 0x24ddf6476a2769cb,
          0xc7582d84ce2a5239, 0xf0596d9d22d09a33, 0x6056e76ff8316061, 0x934189d39baa98c7],
      t = [0x180, 0], f = [0, 0], buf = replicate 128 1 @ [0] @ replicate 127 1,
      buflen = 129, key = None, ncompress = 2\<rparr> =
    \<lparr>h =
         [0x89a09c6680b592a, 0x7254b42756283e23, 0x9f7122afc035850b, 0x67cf24124f834359,
          0xdd8019c9593fdd54, 0x67f081d671ea0cc8, 0x93b0b1297fea90b1, 0x2f462bfe29d8f630],
      t = [0x180, 0], f = [0, 0], buf = replicate 128 1 @ [0] @ replicate 127 1,
      buflen = 129, key = None, ncompress = 3\<rparr>"
proof -
  define X :: "uint64 digest" where "X =
    \<lparr>h =
         [0xf2439f5abe559e47, 0x77a199f53d77b0ae, 0x7637fa97a0eb13b0, 0x24ddf6476a2769cb,
          0xc7582d84ce2a5239, 0xf0596d9d22d09a33, 0x6056e76ff8316061, 0x934189d39baa98c7],
      t = [0x180, 0], f = [0, 0], buf = replicate 128 1 @ [0] @ replicate 127 1,
      buflen = 129, key = None, ncompress = 2\<rparr>"
  have mX: "blake2b_m X =
          [0x101010101010101, 0x101010101010101, 0x101010101010101, 0x101010101010101,
           0x101010101010101, 0x101010101010101, 0x101010101010101, 0x101010101010101,
           0x101010101010101, 0x101010101010101, 0x101010101010101, 0x101010101010101,
           0x101010101010101, 0x101010101010101, 0x101010101010101, 0x101010101010101]"
    by (simp add: X_def blake2b_m_def upt_16 Uint64_def nth_append)
  have hX: "h X =
          [0xf2439f5abe559e47, 0x77a199f53d77b0ae, 0x7637fa97a0eb13b0, 0x24ddf6476a2769cb,
           0xc7582d84ce2a5239, 0xf0596d9d22d09a33, 0x6056e76ff8316061, 0x934189d39baa98c7]"
    and tX: "t X = [0x180, 0]" and fX: "f X = [0, 0]"
    by (simp_all add: X_def)
  have v0: "(
          [0xf2439f5abe559e47, 0x77a199f53d77b0ae,
           0x7637fa97a0eb13b0, 0x24ddf6476a2769cb,
           0xc7582d84ce2a5239, 0xf0596d9d22d09a33,
           0x6056e76ff8316061, 0x934189d39baa98c7,
           0x6a09e667f3bcc908, 0xbb67ae8584caa73b,
           0x3c6ef372fe94f82b, 0xa54ff53a5f1d36f1,
           384 XOR 0x510e527fade682d1, 0 XOR 0x9b05688c2b3e6c1f,
           0 XOR 0x1f83d9abfb41bd6b, 0 XOR 0x5be0cd19137e2179] :: uint64 list)
      =
          [0xf2439f5abe559e47, 0x77a199f53d77b0ae, 0x7637fa97a0eb13b0, 0x24ddf6476a2769cb,
           0xc7582d84ce2a5239, 0xf0596d9d22d09a33, 0x6056e76ff8316061, 0x934189d39baa98c7,
           0x6a09e667f3bcc908, 0xbb67ae8584caa73b, 0x3c6ef372fe94f82b, 0xa54ff53a5f1d36f1,
           0x510e527fade68351, 0x9b05688c2b3e6c1f, 0x1f83d9abfb41bd6b, 0x5be0cd19137e2179]"
    by simp
  have "blake2b_compress X = X\<lparr>h :=
          [0x89a09c6680b592a, 0x7254b42756283e23, 0x9f7122afc035850b, 0x67cf24124f834359,
           0xdd8019c9593fdd54, 0x67f081d671ea0cc8, 0x93b0b1297fea90b1, 0x2f462bfe29d8f630], ncompress := ncompress X + 1\<rparr>"
    by (rule blake2b_compress_rec[OF mX hX tX fX v0 blake2b_rounds_3, THEN trans]) simp
  then show ?thesis by (simp add: X_def)
qed

lemma blake2b_rounds_4:
  "fold (blake2b_round [0, 0, 0, 0, 0, 0, 0, 0, 0, 0, 0, 0, 0, 0, 0, 0]) [0..<12]
          [0x89a09c6680b592a, 0x7254b42756283e23, 0x9f7122afc035850b, 0x67cf24124f834359,
           0xdd8019c9593fdd54, 0x67f081d671ea0cc8, 0x93b0b1297fea90b1, 0x2f462bfe29d8f630,
           0x6a09e667f3bcc908, 0xbb67ae8584caa73b, 0x3c6ef372fe94f82b, 0xa54ff53a5f1d36f1,
           0x510e527fade68350, 0x9b05688c2b3e6c1f, 0xe07c265404be4294, 0x5be0cd19137e2179]
   =
          [0x5acdfb85b3aac8a8, 0x8ab762d8379a69dd, 0x76ccae0043cab4f5, 0x347bd9218ee07113,
           0x44ac45b6e103aaa3, 0x9d94586617c88615, 0x8d16331c9e0f92d6, 0xc30eeb40fc363cc5,
           0x376d1bf5bd39e3e9, 0x6fda05f693197bb5, 0x20632a46dee2dd4b, 0xad2730d29a2fe5f5,
           0xbd6c2c5e11e42443, 0x9e958a922b7dfad1, 0x76688cc02bbac4ed, 0x4ad59fc76c801c4e]"
  by (simp add: upt_12 blake2b_round_def Let_def blake2b_G_eval blake2b_mix_eval rotr64_eval
        blake2b_sigma_def cong: let_weak_cong)

lemma blake2b_compress_4:
  "blake2b_compress
    \<lparr>h =
         [0x89a09c6680b592a, 0x7254b42756283e23, 0x9f7122afc035850b, 0x67cf24124f834359,
          0xdd8019c9593fdd54, 0x67f081d671ea0cc8, 0x93b0b1297fea90b1, 0x2f462bfe29d8f630],
      t = [0x181, 0], f = [0xffffffffffffffff, 0], buf = replicate 256 0,
      buflen = 1, key = None, ncompress = 3\<rparr> =
    \<lparr>h =
         [0x653ae9b66698726b, 0x9739d309f2ab2c4b, 0xc9dea6e95d1decb5, 0xfe93cde15b4cd7bf,
          0x24407021a9d853b4, 0x64f153224d5f700c, 0x68ce0ef5ca5fc68a, 0xa69d5f79b96ed6bb],
      t = [0x181, 0], f = [0xffffffffffffffff, 0], buf = replicate 256 0,
      buflen = 1, key = None, ncompress = 4\<rparr>"
proof -
  define X :: "uint64 digest" where "X =
    \<lparr>h =
         [0x89a09c6680b592a, 0x7254b42756283e23, 0x9f7122afc035850b, 0x67cf24124f834359,
          0xdd8019c9593fdd54, 0x67f081d671ea0cc8, 0x93b0b1297fea90b1, 0x2f462bfe29d8f630],
      t = [0x181, 0], f = [0xffffffffffffffff, 0], buf = replicate 256 0,
      buflen = 1, key = None, ncompress = 3\<rparr>"
  have mX: "blake2b_m X = [0, 0, 0, 0, 0, 0, 0, 0, 0, 0, 0, 0, 0, 0, 0, 0]"
    by (simp add: X_def blake2b_m_def upt_16 Uint64_def nth_append)
  have hX: "h X =
          [0x89a09c6680b592a, 0x7254b42756283e23, 0x9f7122afc035850b, 0x67cf24124f834359,
           0xdd8019c9593fdd54, 0x67f081d671ea0cc8, 0x93b0b1297fea90b1, 0x2f462bfe29d8f630]"
    and tX: "t X = [0x181, 0]" and fX: "f X = [0xffffffffffffffff, 0]"
    by (simp_all add: X_def)
  have v0: "(
          [0x89a09c6680b592a,
           0x7254b42756283e23,
           0x9f7122afc035850b,
           0x67cf24124f834359,
           0xdd8019c9593fdd54,
           0x67f081d671ea0cc8,
           0x93b0b1297fea90b1,
           0x2f462bfe29d8f630,
           0x6a09e667f3bcc908,
           0xbb67ae8584caa73b,
           0x3c6ef372fe94f82b,
           0xa54ff53a5f1d36f1,
           385 XOR 0x510e527fade682d1,
           0 XOR 0x9b05688c2b3e6c1f,
           0xffffffffffffffff XOR 0x1f83d9abfb41bd6b,
           0 XOR 0x5be0cd19137e2179] :: uint64 list)
      =
          [0x89a09c6680b592a, 0x7254b42756283e23, 0x9f7122afc035850b, 0x67cf24124f834359,
           0xdd8019c9593fdd54, 0x67f081d671ea0cc8, 0x93b0b1297fea90b1, 0x2f462bfe29d8f630,
           0x6a09e667f3bcc908, 0xbb67ae8584caa73b, 0x3c6ef372fe94f82b, 0xa54ff53a5f1d36f1,
           0x510e527fade68350, 0x9b05688c2b3e6c1f, 0xe07c265404be4294, 0x5be0cd19137e2179]"
    by simp
  have "blake2b_compress X = X\<lparr>h :=
          [0x653ae9b66698726b, 0x9739d309f2ab2c4b, 0xc9dea6e95d1decb5, 0xfe93cde15b4cd7bf,
           0x24407021a9d853b4, 0x64f153224d5f700c, 0x68ce0ef5ca5fc68a, 0xa69d5f79b96ed6bb], ncompress := ncompress X + 1\<rparr>"
    by (rule blake2b_compress_rec[OF mX hX tX fX v0 blake2b_rounds_4, THEN trans]) simp
  then show ?thesis by (simp add: X_def)
qed

lemma blake2b_final_1:
  "blake2b_final
    \<lparr>h =
         [0xf2439f5abe559e47, 0x77a199f53d77b0ae, 0x7637fa97a0eb13b0, 0x24ddf6476a2769cb,
          0xc7582d84ce2a5239, 0xf0596d9d22d09a33, 0x6056e76ff8316061, 0x934189d39baa98c7],
      t = [0x100, 0], f = [0, 0], buf = replicate 128 1 @ [0] @ replicate 127 1,
      buflen = 129, key = None, ncompress = 2\<rparr> =
    \<lparr>h =
         [0x653ae9b66698726b, 0x9739d309f2ab2c4b, 0xc9dea6e95d1decb5, 0xfe93cde15b4cd7bf,
          0x24407021a9d853b4, 0x64f153224d5f700c, 0x68ce0ef5ca5fc68a, 0xa69d5f79b96ed6bb],
      t = [0x181, 0], f = [0xffffffffffffffff, 0], buf = replicate 256 0,
      buflen = 1, key = None, ncompress = 4\<rparr>"
proof -
  have "blake2b_last_block
    \<lparr>h =
         [0xf2439f5abe559e47, 0x77a199f53d77b0ae, 0x7637fa97a0eb13b0, 0x24ddf6476a2769cb,
          0xc7582d84ce2a5239, 0xf0596d9d22d09a33, 0x6056e76ff8316061, 0x934189d39baa98c7],
      t = [0x100, 0], f = [0, 0], buf = replicate 128 1 @ [0] @ replicate 127 1,
      buflen = 129, key = None, ncompress = 2\<rparr> =
    \<lparr>h =
         [0x89a09c6680b592a, 0x7254b42756283e23, 0x9f7122afc035850b, 0x67cf24124f834359,
          0xdd8019c9593fdd54, 0x67f081d671ea0cc8, 0x93b0b1297fea90b1, 0x2f462bfe29d8f630],
      t = [0x180, 0], f = [0, 0], buf = [0] @ replicate 127 1 @ [0] @ replicate 127 1,
      buflen = 1, key = None, ncompress = 3\<rparr>"
    by (rule blake2b_last_block_rec[OF _ _ blake2b_compress_3])
      (simp_all add: blake2b_incrementCounter_def Let_def blake2b_BlockSize_def replicate_join)
  then show ?thesis
    by (rule blake2b_final_rec[OF _ _ blake2b_compress_4])
      (simp add: blake2b_incrementCounter_def Let_def blake2b_BlockSize_def replicate_join)
qed

lemma blake2b_flush_3:
  "blake2b_flush
    \<lparr>h =
         [0x6a09e667f2bdc948, 0xbb67ae8584caa73b, 0x3c6ef372fe94f82b, 0xa54ff53a5f1d36f1,
          0x510e527fade682d1, 0x9b05688c2b3e6c1f, 0x1f83d9abfb41bd6b, 0x5be0cd19137e2179],
      t = [0, 0], f = [0, 0], buf = replicate 256 1,
      buflen = 256, key = None, ncompress = 0\<rparr>
    ([]) =
    \<lparr>h =
         [0xc62fa13677346a43, 0xa339d869a2a233da, 0x6bb28439fc3840dd, 0x4a493015d768af82,
          0x252e24ea28a7aa48, 0x219a645220ce7295, 0x8f03e42e485c5b70, 0x773645b2e106cfd2],
      t = [0x80, 0], f = [0, 0], buf = replicate 256 1,
      buflen = 128, key = None, ncompress = 1\<rparr>"
  by (rule blake2b_flush_rec[OF _ blake2b_compress_1])
    (simp_all add: blake2b_incrementCounter_def Let_def blake2b_BlockSize_def replicate_join)

lemma blake2b_compress_5:
  "blake2b_compress
    \<lparr>h =
         [0xc62fa13677346a43, 0xa339d869a2a233da, 0x6bb28439fc3840dd, 0x4a493015d768af82,
          0x252e24ea28a7aa48, 0x219a645220ce7295, 0x8f03e42e485c5b70, 0x773645b2e106cfd2],
      t = [0x100, 0], f = [0, 0], buf = replicate 128 1 @ replicate 128 0,
      buflen = 256, key = None, ncompress = 1\<rparr> =
    \<lparr>h =
         [0xf2439f5abe559e47, 0x77a199f53d77b0ae, 0x7637fa97a0eb13b0, 0x24ddf6476a2769cb,
          0xc7582d84ce2a5239, 0xf0596d9d22d09a33, 0x6056e76ff8316061, 0x934189d39baa98c7],
      t = [0x100, 0], f = [0, 0], buf = replicate 128 1 @ replicate 128 0,
      buflen = 256, key = None, ncompress = 2\<rparr>"
proof -
  define X :: "uint64 digest" where "X =
    \<lparr>h =
         [0xc62fa13677346a43, 0xa339d869a2a233da, 0x6bb28439fc3840dd, 0x4a493015d768af82,
          0x252e24ea28a7aa48, 0x219a645220ce7295, 0x8f03e42e485c5b70, 0x773645b2e106cfd2],
      t = [0x100, 0], f = [0, 0], buf = replicate 128 1 @ replicate 128 0,
      buflen = 256, key = None, ncompress = 1\<rparr>"
  have mX: "blake2b_m X =
          [0x101010101010101, 0x101010101010101, 0x101010101010101, 0x101010101010101,
           0x101010101010101, 0x101010101010101, 0x101010101010101, 0x101010101010101,
           0x101010101010101, 0x101010101010101, 0x101010101010101, 0x101010101010101,
           0x101010101010101, 0x101010101010101, 0x101010101010101, 0x101010101010101]"
    by (simp add: X_def blake2b_m_def upt_16 Uint64_def nth_append)
  have hX: "h X =
          [0xc62fa13677346a43, 0xa339d869a2a233da, 0x6bb28439fc3840dd, 0x4a493015d768af82,
           0x252e24ea28a7aa48, 0x219a645220ce7295, 0x8f03e42e485c5b70, 0x773645b2e106cfd2]"
    and tX: "t X = [0x100, 0]" and fX: "f X = [0, 0]"
    by (simp_all add: X_def)
  have v0: "(
          [0xc62fa13677346a43, 0xa339d869a2a233da,
           0x6bb28439fc3840dd, 0x4a493015d768af82,
           0x252e24ea28a7aa48, 0x219a645220ce7295,
           0x8f03e42e485c5b70, 0x773645b2e106cfd2,
           0x6a09e667f3bcc908, 0xbb67ae8584caa73b,
           0x3c6ef372fe94f82b, 0xa54ff53a5f1d36f1,
           256 XOR 0x510e527fade682d1, 0 XOR 0x9b05688c2b3e6c1f,
           0 XOR 0x1f83d9abfb41bd6b, 0 XOR 0x5be0cd19137e2179] :: uint64 list)
      =
          [0xc62fa13677346a43, 0xa339d869a2a233da, 0x6bb28439fc3840dd, 0x4a493015d768af82,
           0x252e24ea28a7aa48, 0x219a645220ce7295, 0x8f03e42e485c5b70, 0x773645b2e106cfd2,
           0x6a09e667f3bcc908, 0xbb67ae8584caa73b, 0x3c6ef372fe94f82b, 0xa54ff53a5f1d36f1,
           0x510e527fade683d1, 0x9b05688c2b3e6c1f, 0x1f83d9abfb41bd6b, 0x5be0cd19137e2179]"
    by simp
  have "blake2b_compress X = X\<lparr>h :=
          [0xf2439f5abe559e47, 0x77a199f53d77b0ae, 0x7637fa97a0eb13b0, 0x24ddf6476a2769cb,
           0xc7582d84ce2a5239, 0xf0596d9d22d09a33, 0x6056e76ff8316061, 0x934189d39baa98c7], ncompress := ncompress X + 1\<rparr>"
    by (rule blake2b_compress_rec[OF mX hX tX fX v0 blake2b_rounds_2, THEN trans]) simp
  then show ?thesis by (simp add: X_def)
qed

lemma blake2b_flush_4:
  "blake2b_flush
    \<lparr>h =
         [0xc62fa13677346a43, 0xa339d869a2a233da, 0x6bb28439fc3840dd, 0x4a493015d768af82,
          0x252e24ea28a7aa48, 0x219a645220ce7295, 0x8f03e42e485c5b70, 0x773645b2e106cfd2],
      t = [0x80, 0], f = [0, 0], buf = replicate 256 1,
      buflen = 128, key = None, ncompress = 1\<rparr>
    (replicate 128 0) =
    \<lparr>h =
         [0xf2439f5abe559e47, 0x77a199f53d77b0ae, 0x7637fa97a0eb13b0, 0x24ddf6476a2769cb,
          0xc7582d84ce2a5239, 0xf0596d9d22d09a33, 0x6056e76ff8316061, 0x934189d39baa98c7],
      t = [0x100, 0], f = [0, 0], buf = replicate 256 0,
      buflen = 128, key = None, ncompress = 2\<rparr>"
  by (rule blake2b_flush_rec[OF _ blake2b_compress_5])
    (simp_all add: blake2b_incrementCounter_def Let_def blake2b_BlockSize_def replicate_join)

lemma blake2b_rounds_5:
  "fold (blake2b_round [0, 0, 0, 0, 0, 0, 0, 0, 0, 0, 0, 0, 0, 0, 0, 0]) [0..<12]
          [0xf2439f5abe559e47, 0x77a199f53d77b0ae, 0x7637fa97a0eb13b0, 0x24ddf6476a2769cb,
           0xc7582d84ce2a5239, 0xf0596d9d22d09a33, 0x6056e76ff8316061, 0x934189d39baa98c7,
           0x6a09e667f3bcc908, 0xbb67ae8584caa73b, 0x3c6ef372fe94f82b, 0xa54ff53a5f1d36f1,
           0x510e527fade68351, 0x9b05688c2b3e6c1f, 0x1f83d9abfb41bd6b, 0x5be0cd19137e2179]
   =
          [0x69c9b503456b7026, 0xb14b81fd36e5ac3a, 0xc013e8e8dec8e4f5, 0x25fee9d5193b57ff,
           0xacde901e05ad4b38, 0xa8b1935be9dbb0d7, 0xb111940a1621b58e, 0xcec1b2d37dce54e7,
           0xa6be48168c6de462, 0xc3f2ec2507903a43, 0x51f5b4ac1a514dc6, 0xf5bcf2306028f14a,
           0x701b67cb11722c92, 0xadff34a4b8ae29de, 0x8b5a9a45dd4f8a4, 0xffdc70ba8316c14c]"
  by (simp add: upt_12 blake2b_round_def Let_def blake2b_G_eval blake2b_mix_eval rotr64_eval
        blake2b_sigma_def cong: let_weak_cong)

lemma blake2b_compress_6:
  "blake2b_compress
    \<lparr>h =
         [0xf2439f5abe559e47, 0x77a199f53d77b0ae, 0x7637fa97a0eb13b0, 0x24ddf6476a2769cb,
          0xc7582d84ce2a5239, 0xf0596d9d22d09a33, 0x6056e76ff8316061, 0x934189d39baa98c7],
      t = [0x180, 0], f = [0, 0], buf = replicate 256 0,
      buflen = 129, key = None, ncompress = 2\<rparr> =
    \<lparr>h =
         [0x3d34624f77530a03, 0x518f42d0c0226d7, 0xe7d1a6d36472ba83, 0xf49feda21334cf7e,
          0x1b9dda51daf53593, 0xf517ca6273a5033a, 0xd9f2dac1b3c42d4b, 0xa25c4bba65720d6c],
      t = [0x180, 0], f = [0, 0], buf = replicate 256 0,
      buflen = 129, key = None, ncompress = 3\<rparr>"
proof -
  define X :: "uint64 digest" where "X =
    \<lparr>h =
         [0xf2439f5abe559e47, 0x77a199f53d77b0ae, 0x7637fa97a0eb13b0, 0x24ddf6476a2769cb,
          0xc7582d84ce2a5239, 0xf0596d9d22d09a33, 0x6056e76ff8316061, 0x934189d39baa98c7],
      t = [0x180, 0], f = [0, 0], buf = replicate 256 0,
      buflen = 129, key = None, ncompress = 2\<rparr>"
  have mX: "blake2b_m X = [0, 0, 0, 0, 0, 0, 0, 0, 0, 0, 0, 0, 0, 0, 0, 0]"
    by (simp add: X_def blake2b_m_def upt_16 Uint64_def nth_append)
  have hX: "h X =
          [0xf2439f5abe559e47, 0x77a199f53d77b0ae, 0x7637fa97a0eb13b0, 0x24ddf6476a2769cb,
           0xc7582d84ce2a5239, 0xf0596d9d22d09a33, 0x6056e76ff8316061, 0x934189d39baa98c7]"
    and tX: "t X = [0x180, 0]" and fX: "f X = [0, 0]"
    by (simp_all add: X_def)
  have v0: "(
          [0xf2439f5abe559e47, 0x77a199f53d77b0ae,
           0x7637fa97a0eb13b0, 0x24ddf6476a2769cb,
           0xc7582d84ce2a5239, 0xf0596d9d22d09a33,
           0x6056e76ff8316061, 0x934189d39baa98c7,
           0x6a09e667f3bcc908, 0xbb67ae8584caa73b,
           0x3c6ef372fe94f82b, 0xa54ff53a5f1d36f1,
           384 XOR 0x510e527fade682d1, 0 XOR 0x9b05688c2b3e6c1f,
           0 XOR 0x1f83d9abfb41bd6b, 0 XOR 0x5be0cd19137e2179] :: uint64 list)
      =
          [0xf2439f5abe559e47, 0x77a199f53d77b0ae, 0x7637fa97a0eb13b0, 0x24ddf6476a2769cb,
           0xc7582d84ce2a5239, 0xf0596d9d22d09a33, 0x6056e76ff8316061, 0x934189d39baa98c7,
           0x6a09e667f3bcc908, 0xbb67ae8584caa73b, 0x3c6ef372fe94f82b, 0xa54ff53a5f1d36f1,
           0x510e527fade68351, 0x9b05688c2b3e6c1f, 0x1f83d9abfb41bd6b, 0x5be0cd19137e2179]"
    by simp
  have "blake2b_compress X = X\<lparr>h :=
          [0x3d34624f77530a03, 0x518f42d0c0226d7, 0xe7d1a6d36472ba83, 0xf49feda21334cf7e,
           0x1b9dda51daf53593, 0xf517ca6273a5033a, 0xd9f2dac1b3c42d4b, 0xa25c4bba65720d6c], ncompress := ncompress X + 1\<rparr>"
    by (rule blake2b_compress_rec[OF mX hX tX fX v0 blake2b_rounds_5, THEN trans]) simp
  then show ?thesis by (simp add: X_def)
qed

lemma blake2b_rounds_6:
  "fold (blake2b_round [0, 0, 0, 0, 0, 0, 0, 0, 0, 0, 0, 0, 0, 0, 0, 0]) [0..<12]
          [0x3d34624f77530a03, 0x518f42d0c0226d7, 0xe7d1a6d36472ba83, 0xf49feda21334cf7e,
           0x1b9dda51daf53593, 0xf517ca6273a5033a, 0xd9f2dac1b3c42d4b, 0xa25c4bba65720d6c,
           0x6a09e667f3bcc908, 0xbb67ae8584caa73b, 0x3c6ef372fe94f82b, 0xa54ff53a5f1d36f1,
           0x510e527fade68350, 0x9b05688c2b3e6c1f, 0xe07c265404be4294, 0x5be0cd19137e2179]
   =
          [0x26382922887dbf21, 0x5bbb50e45cc8ef1b, 0xa9f2c2fca0d6a2fb, 0xc5ed482cc87f715e,
           0x677019ca69ca8f11, 0x90ad3d996551a7c, 0xc31cde85d1f8fd21, 0x387c782409ed420e,
           0xc4716989e08e0526, 0x45fa1bf3d8d92906, 0x41b92f5d9858a9fd, 0x7fb8b96e38f8d367,
           0x195da94749394626, 0xae9013d04e4f69d0, 0x3ae4a7938c1d42e2, 0x2e5c7213c9a2bdd5]"
  by (simp add: upt_12 blake2b_round_def Let_def blake2b_G_eval blake2b_mix_eval rotr64_eval
        blake2b_sigma_def cong: let_weak_cong)

lemma blake2b_compress_7:
  "blake2b_compress
    \<lparr>h =
         [0x3d34624f77530a03, 0x518f42d0c0226d7, 0xe7d1a6d36472ba83, 0xf49feda21334cf7e,
          0x1b9dda51daf53593, 0xf517ca6273a5033a, 0xd9f2dac1b3c42d4b, 0xa25c4bba65720d6c],
      t = [0x181, 0], f = [0xffffffffffffffff, 0], buf = replicate 256 0,
      buflen = 1, key = None, ncompress = 3\<rparr> =
    \<lparr>h =
         [0xdf7d22e41fa0b004, 0x1b59bf3a8813e0ca, 0xf9a4b725cfcb185, 0x4eca1ce0e3b36d47,
          0x65b06adcfa06fca4, 0x528d0a6babbf7096, 0x200aa3d7ee219288, 0xb47c418da53df2b7],
      t = [0x181, 0], f = [0xffffffffffffffff, 0], buf = replicate 256 0,
      buflen = 1, key = None, ncompress = 4\<rparr>"
proof -
  define X :: "uint64 digest" where "X =
    \<lparr>h =
         [0x3d34624f77530a03, 0x518f42d0c0226d7, 0xe7d1a6d36472ba83, 0xf49feda21334cf7e,
          0x1b9dda51daf53593, 0xf517ca6273a5033a, 0xd9f2dac1b3c42d4b, 0xa25c4bba65720d6c],
      t = [0x181, 0], f = [0xffffffffffffffff, 0], buf = replicate 256 0,
      buflen = 1, key = None, ncompress = 3\<rparr>"
  have mX: "blake2b_m X = [0, 0, 0, 0, 0, 0, 0, 0, 0, 0, 0, 0, 0, 0, 0, 0]"
    by (simp add: X_def blake2b_m_def upt_16 Uint64_def nth_append)
  have hX: "h X =
          [0x3d34624f77530a03, 0x518f42d0c0226d7, 0xe7d1a6d36472ba83, 0xf49feda21334cf7e,
           0x1b9dda51daf53593, 0xf517ca6273a5033a, 0xd9f2dac1b3c42d4b, 0xa25c4bba65720d6c]"
    and tX: "t X = [0x181, 0]" and fX: "f X = [0xffffffffffffffff, 0]"
    by (simp_all add: X_def)
  have v0: "(
          [0x3d34624f77530a03,
           0x518f42d0c0226d7,
           0xe7d1a6d36472ba83,
           0xf49feda21334cf7e,
           0x1b9dda51daf53593,
           0xf517ca6273a5033a,
           0xd9f2dac1b3c42d4b,
           0xa25c4bba65720d6c,
           0x6a09e667f3bcc908,
           0xbb67ae8584caa73b,
           0x3c6ef372fe94f82b,
           0xa54ff53a5f1d36f1,
           385 XOR 0x510e527fade682d1,
           0 XOR 0x9b05688c2b3e6c1f,
           0xffffffffffffffff XOR 0x1f83d9abfb41bd6b,
           0 XOR 0x5be0cd19137e2179] :: uint64 list)
      =
          [0x3d34624f77530a03, 0x518f42d0c0226d7, 0xe7d1a6d36472ba83, 0xf49feda21334cf7e,
           0x1b9dda51daf53593, 0xf517ca6273a5033a, 0xd9f2dac1b3c42d4b, 0xa25c4bba65720d6c,
           0x6a09e667f3bcc908, 0xbb67ae8584caa73b, 0x3c6ef372fe94f82b, 0xa54ff53a5f1d36f1,
           0x510e527fade68350, 0x9b05688c2b3e6c1f, 0xe07c265404be4294, 0x5be0cd19137e2179]"
    by simp
  have "blake2b_compress X = X\<lparr>h :=
          [0xdf7d22e41fa0b004, 0x1b59bf3a8813e0ca, 0xf9a4b725cfcb185, 0x4eca1ce0e3b36d47,
           0x65b06adcfa06fca4, 0x528d0a6babbf7096, 0x200aa3d7ee219288, 0xb47c418da53df2b7], ncompress := ncompress X + 1\<rparr>"
    by (rule blake2b_compress_rec[OF mX hX tX fX v0 blake2b_rounds_6, THEN trans]) simp
  then show ?thesis by (simp add: X_def)
qed

lemma blake2b_final_2:
  "blake2b_final
    \<lparr>h =
         [0xf2439f5abe559e47, 0x77a199f53d77b0ae, 0x7637fa97a0eb13b0, 0x24ddf6476a2769cb,
          0xc7582d84ce2a5239, 0xf0596d9d22d09a33, 0x6056e76ff8316061, 0x934189d39baa98c7],
      t = [0x100, 0], f = [0, 0], buf = replicate 256 0,
      buflen = 129, key = None, ncompress = 2\<rparr> =
    \<lparr>h =
         [0xdf7d22e41fa0b004, 0x1b59bf3a8813e0ca, 0xf9a4b725cfcb185, 0x4eca1ce0e3b36d47,
          0x65b06adcfa06fca4, 0x528d0a6babbf7096, 0x200aa3d7ee219288, 0xb47c418da53df2b7],
      t = [0x181, 0], f = [0xffffffffffffffff, 0], buf = replicate 256 0,
      buflen = 1, key = None, ncompress = 4\<rparr>"
proof -
  have "blake2b_last_block
    \<lparr>h =
         [0xf2439f5abe559e47, 0x77a199f53d77b0ae, 0x7637fa97a0eb13b0, 0x24ddf6476a2769cb,
          0xc7582d84ce2a5239, 0xf0596d9d22d09a33, 0x6056e76ff8316061, 0x934189d39baa98c7],
      t = [0x100, 0], f = [0, 0], buf = replicate 256 0,
      buflen = 129, key = None, ncompress = 2\<rparr> =
    \<lparr>h =
         [0x3d34624f77530a03, 0x518f42d0c0226d7, 0xe7d1a6d36472ba83, 0xf49feda21334cf7e,
          0x1b9dda51daf53593, 0xf517ca6273a5033a, 0xd9f2dac1b3c42d4b, 0xa25c4bba65720d6c],
      t = [0x180, 0], f = [0, 0], buf = replicate 256 0,
      buflen = 1, key = None, ncompress = 3\<rparr>"
    by (rule blake2b_last_block_rec[OF _ _ blake2b_compress_6])
      (simp_all add: blake2b_incrementCounter_def Let_def blake2b_BlockSize_def replicate_join)
  then show ?thesis
    by (rule blake2b_final_rec[OF _ _ blake2b_compress_7])
      (simp add: blake2b_incrementCounter_def Let_def blake2b_BlockSize_def replicate_join)
qed

text \<open>
  One \<open>Write\<close> of 385 bytes on a new engine, 256 of value 1 then 129 of value 0: the loop
  compresses twice, and on its second pass copies \<open>buf[:128]\<close>, the first bytes of the input
  once more; \<open>Sum\<close> compresses twice.
\<close>

lemma blake2b_single_Write_digest:
  "blake2b_run blake2b_New [replicate 256 1 @ replicate 129 0] =
     Some
        [0x6b, 0x72, 0x98, 0x66, 0xb6, 0xe9, 0x3a, 0x65, 0x4b, 0x2c, 0xab, 0xf2, 0x09, 0xd3,
         0x39, 0x97, 0xb5, 0xec, 0x1d, 0x5d, 0xe9, 0xa6, 0xde, 0xc9, 0xbf, 0xd7, 0x4c, 0x5b,
         0xe1, 0xcd, 0x93, 0xfe, 0xb4, 0x53, 0xd8, 0xa9, 0x21, 0x70, 0x40, 0x24, 0x0c, 0x70,
         0x5f, 0x4d, 0x22, 0x53, 0xf1, 0x64, 0x8a, 0xc6, 0x5f, 0xca, 0xf5, 0x0e, 0xce, 0x68,
         0xbb, 0xd6, 0x6e, 0xb9, 0x79, 0x5f, 0x9d, 0xa6]"
proof -
  define ab :: "byte list" where "ab = replicate 256 1 @ replicate 129 0"
  define d0 where "d0 = blake2b_init None"
  have inv0: "blake2b_inv d0" and b0: "buflen d0 = 0"
    by (simp_all add: d0_def blake2b_inv_init) (simp add: blake2b_init_def)
  define d1 where "d1 = blake2b_flush d0 (take (nat (2 * blake2b_BlockSize - buflen d0)) ab)"
  have s1: "blake2b_Write_loop d0 ab 0 385 = blake2b_Write_loop d1 ab 256 129"
    using blake2b_Write_loop_flush[OF inv0, of 385 ab 0]
    by (simp add: b0 blake2b_BlockSize_def ab_def d1_def)
  have inv1: "blake2b_inv d1"
    unfolding d1_def using inv0
    by (rule blake2b_inv_flush) (simp add: b0 blake2b_BlockSize_def ab_def)
  have b1: "buflen d1 = 128" by (simp add: d1_def blake2b_BlockSize_def)
  define d2 where "d2 = blake2b_flush d1 (take (nat (2 * blake2b_BlockSize - buflen d1)) ab)"
  have s2: "blake2b_Write_loop d1 ab 256 129 = blake2b_Write_loop d2 ab 384 1"
    using blake2b_Write_loop_flush[OF inv1, of 129 ab 256]
    by (simp add: b1 blake2b_BlockSize_def ab_def d2_def)
  have inv2: "blake2b_inv d2"
    unfolding d2_def using inv1
    by (rule blake2b_inv_flush) (simp add: b1 blake2b_BlockSize_def ab_def)
  have b2: "buflen d2 = 128" by (simp add: d2_def blake2b_BlockSize_def)
  define d3 where "d3 = d2\<lparr>buf := take (nat (buflen d2)) (buf d2) @ drop (nat 384) ab
                       @ drop (nat (buflen d2 + 1)) (buf d2),
                 buflen := buflen d2 + 1\<rparr>"
  have s3: "blake2b_Write_loop d2 ab 384 1 = Some d3"
    unfolding d3_def using inv2
    by (rule blake2b_Write_loop_tail) (simp_all add: b2 blake2b_BlockSize_def ab_def)
  have inv3: "blake2b_inv d3"
    unfolding d3_def using inv2
    by (rule blake2b_inv_tail) (simp_all add: b2 blake2b_BlockSize_def ab_def)
  have w: "blake2b_Write d0 ab = Some (d3, 0, None)"
    using s1 s2 s3 by (simp add: blake2b_Write_def ab_def)
  have src1: "take (nat (2 * blake2b_BlockSize - buflen d0)) ab = replicate 256 1"
    and src2: "take (nat (2 * blake2b_BlockSize - buflen d1)) ab = replicate 128 1"
    by (simp_all add: b0 b1 blake2b_BlockSize_def ab_def)
  have v1: "d1 =
    \<lparr>h =
         [0xc62fa13677346a43, 0xa339d869a2a233da, 0x6bb28439fc3840dd, 0x4a493015d768af82,
          0x252e24ea28a7aa48, 0x219a645220ce7295, 0x8f03e42e485c5b70, 0x773645b2e106cfd2],
      t = [0x80, 0], f = [0, 0], buf = replicate 256 1,
      buflen = 128, key = None, ncompress = 1\<rparr>"
    unfolding d1_def src1 unfolding d0_def blake2b_init_None by (rule blake2b_flush_1)
  have v2: "d2 =
    \<lparr>h =
         [0xf2439f5abe559e47, 0x77a199f53d77b0ae, 0x7637fa97a0eb13b0, 0x24ddf6476a2769cb,
          0xc7582d84ce2a5239, 0xf0596d9d22d09a33, 0x6056e76ff8316061, 0x934189d39baa98c7],
      t = [0x100, 0], f = [0, 0], buf = replicate 256 1,
      buflen = 128, key = None, ncompress = 2\<rparr>"
    unfolding d2_def src2 unfolding v1 by (rule blake2b_flush_2)
  have v3: "d3 =
    \<lparr>h =
         [0xf2439f5abe559e47, 0x77a199f53d77b0ae, 0x7637fa97a0eb13b0, 0x24ddf6476a2769cb,
          0xc7582d84ce2a5239, 0xf0596d9d22d09a33, 0x6056e76ff8316061, 0x934189d39baa98c7],
      t = [0x100, 0], f = [0, 0], buf = replicate 128 1 @ [0] @ replicate 127 1,
      buflen = 129, key = None, ncompress = 2\<rparr>"
    by (simp add: d3_def v2 ab_def replicate_join)
  have fin: "h (blake2b_final d3) =
          [0x653ae9b66698726b, 0x9739d309f2ab2c4b, 0xc9dea6e95d1decb5, 0xfe93cde15b4cd7bf,
           0x24407021a9d853b4, 0x64f153224d5f700c, 0x68ce0ef5ca5fc68a, 0xa69d5f79b96ed6bb]"
    unfolding v3 blake2b_final_1 by simp
  have "blake2b_run blake2b_New [ab] =
     Some
        [0x6b, 0x72, 0x98, 0x66, 0xb6, 0xe9, 0x3a, 0x65, 0x4b, 0x2c, 0xab, 0xf2, 0x09, 0xd3,
         0x39, 0x97, 0xb5, 0xec, 0x1d, 0x5d, 0xe9, 0xa6, 0xde, 0xc9, 0xbf, 0xd7, 0x4c, 0x5b,
         0xe1, 0xcd, 0x93, 0xfe, 0xb4, 0x53, 0xd8, 0xa9, 0x21, 0x70, 0x40, 0x24, 0x0c, 0x70,
         0x5f, 0x4d, 0x22, 0x53, 0xf1, 0x64, 0x8a, 0xc6, 0x5f, 0xca, 0xf5, 0x0e, 0xce, 0x68,
         0xbb, 0xd6, 0x6e, 0xb9, 0x79, 0x5f, 0x9d, 0xa6]"
    by (simp add: blake2b_run_def blake2b_New_eq d0_def[symmetric] w blake2b_Sum_eq[OF inv3] fin
          upt_8 PutUint64_def)
  then show ?thesis unfolding ab_def .
qed

text \<open>
  The same 385 bytes in two calls of \<open>Write\<close>, 256 bytes then 129 bytes: every pass of the
  loop that compresses starts at \<open>offset = 0\<close>, and the digest is the BLAKE2b-512 digest of
  the input.
\<close>

lemma blake2b_split_Write_digest:
  "blake2b_run blake2b_New [replicate 256 1, replicate 129 0] =
     Some
        [0x04, 0xb0, 0xa0, 0x1f, 0xe4, 0x22, 0x7d, 0xdf, 0xca, 0xe0, 0x13, 0x88, 0x3a, 0xbf,
         0x59, 0x1b, 0x85, 0xb1, 0xfc, 0x5c, 0x72, 0x4b, 0x9a, 0x0f, 0x47, 0x6d, 0xb3, 0xe3,
         0xe0, 0x1c, 0xca, 0x4e, 0xa4, 0xfc, 0x06, 0xfa, 0xdc, 0x6a, 0xb0, 0x65, 0x96, 0x70,
         0xbf, 0xab, 0x6b, 0x0a, 0x8d, 0x52, 0x88, 0x92, 0x21, 0xee, 0xd7, 0xa3, 0x0a, 0x20,
         0xb7, 0xf2, 0x3d, 0xa5, 0x8d, 0x41, 0x7c, 0xb4]"
proof -
  define a :: "byte list" where "a = replicate 256 1"
  define b :: "byte list" where "b = replicate 129 0"
  define d0 where "d0 = blake2b_init None"
  have inv0: "blake2b_inv d0" and b0: "buflen d0 = 0"
    by (simp_all add: d0_def blake2b_inv_init) (simp add: blake2b_init_def)
  define d1 where "d1 = d0\<lparr>buf := take (nat (buflen d0)) (buf d0) @ a
                         @ drop (nat (buflen d0) + length a) (buf d0),
                   buflen := buflen d0 + int (length a)\<rparr>"
  have w1: "blake2b_Write d0 a = Some (d1, 0, None)"
    unfolding d1_def using inv0
    by (rule blake2b_Write_fits) (simp add: b0 a_def blake2b_BlockSize_def)
  have inv1: "blake2b_inv d1"
    unfolding d1_def using inv0
    by (rule blake2b_inv_fits) (simp add: b0 a_def blake2b_BlockSize_def)
  have b1: "buflen d1 = 256" by (simp add: d1_def b0 a_def)
  define d2 where "d2 = blake2b_flush d1 (take (nat (2 * blake2b_BlockSize - buflen d1)) b)"
  have s2: "blake2b_Write_loop d1 b 0 129 = blake2b_Write_loop d2 b 0 129"
    using blake2b_Write_loop_flush[OF inv1, of 129 b 0]
    by (simp add: b1 blake2b_BlockSize_def b_def d2_def)
  have inv2: "blake2b_inv d2"
    unfolding d2_def using inv1
    by (rule blake2b_inv_flush) (simp add: b1 blake2b_BlockSize_def)
  have b2: "buflen d2 = 128" by (simp add: d2_def blake2b_BlockSize_def)
  define d3 where "d3 = blake2b_flush d2 (take (nat (2 * blake2b_BlockSize - buflen d2)) b)"
  have s3: "blake2b_Write_loop d2 b 0 129 = blake2b_Write_loop d3 b 128 1"
    using blake2b_Write_loop_flush[OF inv2, of 129 b 0]
    by (simp add: b2 blake2b_BlockSize_def b_def d3_def)
  have inv3: "blake2b_inv d3"
    unfolding d3_def using inv2
    by (rule blake2b_inv_flush) (simp add: b2 blake2b_BlockSize_def b_def)
  have b3: "buflen d3 = 128" by (simp add: d3_def blake2b_BlockSize_def)
  define d4 where "d4 = d3\<lparr>buf := take (nat (buflen d3)) (buf d3) @ drop (nat 128) b
                       @ drop (nat (buflen d3 + 1)) (buf d3),
                 buflen := buflen d3 + 1\<rparr>"
  have s4: "blake2b_Write_loop d3 b 128 1 = Some d4"
    unfolding d4_def using inv3
    by (rule blake2b_Write_loop_tail) (simp_all add: b3 blake2b_BlockSize_def b_def)
  have inv4: "blake2b_inv d4"
    unfolding d4_def using inv3
    by (rule blake2b_inv_tail) (simp_all add: b3 blake2b_BlockSize_def b_def)
  have w2: "blake2b_Write d1 b = Some (d4, 0, None)"
    using s2 s3 s4 by (simp add: blake2b_Write_def b_def)
  have src2: "take (nat (2 * blake2b_BlockSize - buflen d1)) b = []"
    and src3: "take (nat (2 * blake2b_BlockSize - buflen d2)) b = replicate 128 0"
    by (simp_all add: b1 b2 blake2b_BlockSize_def b_def)
  have v1: "d1 =
    \<lparr>h =
         [0x6a09e667f2bdc948, 0xbb67ae8584caa73b, 0x3c6ef372fe94f82b, 0xa54ff53a5f1d36f1,
          0x510e527fade682d1, 0x9b05688c2b3e6c1f, 0x1f83d9abfb41bd6b, 0x5be0cd19137e2179],
      t = [0, 0], f = [0, 0], buf = replicate 256 1,
      buflen = 256, key = None, ncompress = 0\<rparr>"
    by (simp add: d1_def d0_def blake2b_init_None a_def)
  have v2: "d2 =
    \<lparr>h =
         [0xc62fa13677346a43, 0xa339d869a2a233da, 0x6bb28439fc3840dd, 0x4a493015d768af82,
          0x252e24ea28a7aa48, 0x219a645220ce7295, 0x8f03e42e485c5b70, 0x773645b2e106cfd2],
      t = [0x80, 0], f = [0, 0], buf = replicate 256 1,
      buflen = 128, key = None, ncompress = 1\<rparr>"
    unfolding d2_def src2 unfolding v1 by (rule blake2b_flush_3)
  have v3: "d3 =
    \<lparr>h =
         [0xf2439f5abe559e47, 0x77a199f53d77b0ae, 0x7637fa97a0eb13b0, 0x24ddf6476a2769cb,
          0xc7582d84ce2a5239, 0xf0596d9d22d09a33, 0x6056e76ff8316061, 0x934189d39baa98c7],
      t = [0x100, 0], f = [0, 0], buf = replicate 256 0,
      buflen = 128, key = None, ncompress = 2\<rparr>"
    unfolding d3_def src3 unfolding v2 by (rule blake2b_flush_4)
  have v4: "d4 =
    \<lparr>h =
         [0xf2439f5abe559e47, 0x77a199f53d77b0ae, 0x7637fa97a0eb13b0, 0x24ddf6476a2769cb,
          0xc7582d84ce2a5239, 0xf0596d9d22d09a33, 0x6056e76ff8316061, 0x934189d39baa98c7],
      t = [0x100, 0], f = [0, 0], buf = replicate 256 0,
      buflen = 129, key = None, ncompress = 2\<rparr>"
    by (simp add: d4_def v3 b_def replicate_join)
  have fin: "h (blake2b_final d4) =
          [0xdf7d22e41fa0b004, 0x1b59bf3a8813e0ca, 0xf9a4b725cfcb185, 0x4eca1ce0e3b36d47,
           0x65b06adcfa06fca4, 0x528d0a6babbf7096, 0x200aa3d7ee219288, 0xb47c418da53df2b7]"
    unfolding v4 blake2b_final_2 by simp
  have "blake2b_run blake2b_New [a, b] =
     Some
        [0x04, 0xb0, 0xa0, 0x1f, 0xe4, 0x22, 0x7d, 0xdf, 0xca, 0xe0, 0x13, 0x88, 0x3a, 0xbf,
         0x59, 0x1b, 0x85, 0xb1, 0xfc, 0x5c, 0x72, 0x4b, 0x9a, 0x0f, 0x47, 0x6d, 0xb3, 0xe3,
         0xe0, 0x1c, 0xca, 0x4e, 0xa4, 0xfc, 0x06, 0xfa, 0xdc, 0x6a, 0xb0, 0x65, 0x96, 0x70,
         0xbf, 0xab, 0x6b, 0x0a, 0x8d, 0x52, 0x88, 0x92, 0x21, 0xee, 0xd7, 0xa3, 0x0a, 0x20,
         0xb7, 0xf2, 0x3d, 0xa5, 0x8d, 0x41, 0x7c, 0xb4]"
    by (simp add: blake2b_run_def blake2b_New_eq d0_def[symmetric] w1 w2 blake2b_Sum_eq[OF inv4]
          fin upt_8 PutUint64_def)
  then show ?thesis unfolding a_def b_def .
qed

section \<open>The counter\<close>

lemma blake2b_incrementCounter_t:
  "length (t d) = 2 \<Longrightarrow>
   t (blake2b_incrementCounter d n) =
     [t d ! 0 + n, if t d ! 0 + n < n then t d ! 1 - 1 else t d ! 1]"
  by (cases "t d"; cases "tl (t d)") (auto simp: blake2b_incrementCounter_def Let_def)

lemma blake2s_incrementCounter_t:
  "length (t d) = 2 \<Longrightarrow>
   t (blake2s_incrementCounter d n) =
     [t d ! 0 + n, if t d ! 0 + n < n then t d ! 1 - 1 else t d ! 1]"
  by (cases "t d"; cases "tl (t d)") (auto simp: blake2s_incrementCounter_def Let_def)

text \<open>
  Claim C1. \<open>incrementCounter(n)\<close> adds \<open>n\<close> to \<open>t0\<close> modulo \<open>2 ^ W\<close> and, when the addition
  wraps, is to carry into \<open>t1\<close> by incrementing it. The code decrements: with the low word
  one block short of wrapping and the high word 0, adding a block leaves the low word 0
  and the high word all ones, where the carry asks for 1. This holds in both packages.
\<close>

theorem incrementCounter_carry_decrements:
  "t (blake2b_incrementCounter (blake2b_new_digest\<lparr>t := [0xffffffffffffff80, 0]\<rparr>) 128)
     = [0, 0xffffffffffffffff] \<and>
   t (blake2s_incrementCounter (blake2s_new_digest\<lparr>t := [0xffffffc0, 0]\<rparr>) 64)
     = [0, 0xffffffff]"
  by (simp add: blake2b_incrementCounter_def blake2s_incrementCounter_def Let_def)

section \<open>Keys\<close>

text \<open>
  Claim C9. For every input, written in any number of chunks, an engine made by
  \<open>NewKeyed\<close> with an empty, non-nil key returns the digest that an engine made by \<open>New\<close>
  returns. This holds in both packages.
\<close>

theorem empty_key_same_digest:
  "blake2b_run (blake2b_NewKeyed (Some [])) bs = blake2b_run blake2b_New bs \<and>
   blake2s_run (blake2s_NewKeyed (Some [])) bs = blake2s_run blake2s_New bs"
proof -
  have b: "blake2b_NewKeyed (Some []) = Some ((blake2b_init None)\<lparr>key := Some []\<rparr>)"
    using blake2b_NewKeyed_eq[of "Some []"] blake2b_init_key[of "Some []" None]
    by (simp add: keylen_of_def blake2b_KeySize_def)
  have s: "blake2s_NewKeyed (Some []) = Some ((blake2s_init None)\<lparr>key := Some []\<rparr>)"
    using blake2s_NewKeyed_eq[of "Some []"] blake2s_init_key[of "Some []" None]
    by (simp add: keylen_of_def blake2s_KeySize_def)
  show ?thesis
    by (simp only: b s blake2b_run_key blake2s_run_key blake2b_New_eq blake2s_New_eq)
qed

text \<open>
  Claim C5, as stated: \<open>NewKeyed\<close> with a key longer than \<open>KeySize\<close> fails and never cuts the
  key. It does not hold: with a key of \<open>KeySize + 1\<close> bytes \<open>NewKeyed\<close> returns an engine,
  and the key block in its buffer holds the first \<open>KeySize\<close> bytes of the key and zeros.
\<close>

theorem long_key_accepted_counterexample:
  "blake2b_NewKeyed (Some (replicate 65 1)) =
     Some ((blake2b_init (Some (replicate 65 1)))
             \<lparr>buf := replicate 64 1 @ replicate 64 0 @ replicate 128 0, buflen := 128\<rparr>) \<and>
   blake2s_NewKeyed (Some (replicate 33 1)) =
     Some ((blake2s_init (Some (replicate 33 1)))
             \<lparr>buf := replicate 32 1 @ replicate 32 0 @ replicate 64 0, buflen := 64\<rparr>)"
  using blake2b_NewKeyed_eq[of "Some (replicate 65 1)"]
        blake2s_NewKeyed_eq[of "Some (replicate 33 1)"]
  by (simp add: keylen_of_def bytes_of_def blake2b_KeySize_def blake2s_KeySize_def)

text \<open>
  Claim C5, amended. \<open>NewKeyed\<close> with a key longer than \<open>KeySize\<close> returns an engine: the
  engine that \<open>NewKeyed\<close> returns for the first \<open>KeySize\<close> bytes of the key, but for the
  stored key itself, and with the same digest for every input. No error is reported.
\<close>

theorem long_key_truncated:
  "(blake2b_KeySize < int (length k) \<longrightarrow>
      blake2b_NewKeyed (Some k) \<noteq> None \<and>
      blake2b_NewKeyed (Some k)
        = map_option (\<lambda>d. d\<lparr>key := Some k\<rparr>) (blake2b_NewKeyed (Some (take 64 k))) \<and>
      blake2b_run (blake2b_NewKeyed (Some k)) bs
        = blake2b_run (blake2b_NewKeyed (Some (take 64 k))) bs) \<and>
   (blake2s_KeySize < int (length k') \<longrightarrow>
      blake2s_NewKeyed (Some k') \<noteq> None \<and>
      blake2s_NewKeyed (Some k')
        = map_option (\<lambda>d. d\<lparr>key := Some k'\<rparr>) (blake2s_NewKeyed (Some (take 32 k'))) \<and>
      blake2s_run (blake2s_NewKeyed (Some k')) bs'
        = blake2s_run (blake2s_NewKeyed (Some (take 32 k'))) bs')"
proof (intro conjI impI)
  assume l: "blake2b_KeySize < int (length k)"
  then have m: "min (keylen_of (Some k)) blake2b_KeySize = 64"
    "min (keylen_of (Some (take 64 k))) blake2b_KeySize = 64"
    by (simp_all add: keylen_of_def blake2b_KeySize_def)
  have i: "blake2b_init (Some k) = (blake2b_init (Some (take 64 k)))\<lparr>key := Some k\<rparr>"
    by (rule blake2b_init_key) (simp add: m)
  show "blake2b_NewKeyed (Some k) \<noteq> None"
    by (simp add: blake2b_NewKeyed_eq)
  show e: "blake2b_NewKeyed (Some k)
        = map_option (\<lambda>d. d\<lparr>key := Some k\<rparr>) (blake2b_NewKeyed (Some (take 64 k)))"
    by (simp add: blake2b_NewKeyed_eq[of "Some k"] blake2b_NewKeyed_eq[of "Some (take 64 k)"]
          m i bytes_of_def)
  show "blake2b_run (blake2b_NewKeyed (Some k)) bs
        = blake2b_run (blake2b_NewKeyed (Some (take 64 k))) bs"
    unfolding e by (cases "blake2b_NewKeyed (Some (take 64 k))")
      (simp_all add: blake2b_run_key)
next
  assume l: "blake2s_KeySize < int (length k')"
  then have m: "min (keylen_of (Some k')) blake2s_KeySize = 32"
    "min (keylen_of (Some (take 32 k'))) blake2s_KeySize = 32"
    by (simp_all add: keylen_of_def blake2s_KeySize_def)
  have i: "blake2s_init (Some k') = (blake2s_init (Some (take 32 k')))\<lparr>key := Some k'\<rparr>"
    by (rule blake2s_init_key) (simp add: m)
  show "blake2s_NewKeyed (Some k') \<noteq> None"
    by (simp add: blake2s_NewKeyed_eq)
  show e: "blake2s_NewKeyed (Some k')
        = map_option (\<lambda>d. d\<lparr>key := Some k'\<rparr>) (blake2s_NewKeyed (Some (take 32 k')))"
    by (simp add: blake2s_NewKeyed_eq[of "Some k'"] blake2s_NewKeyed_eq[of "Some (take 32 k')"]
          m i bytes_of_def)
  show "blake2s_run (blake2s_NewKeyed (Some k')) bs'
        = blake2s_run (blake2s_NewKeyed (Some (take 32 k'))) bs'"
    unfolding e by (cases "blake2s_NewKeyed (Some (take 32 k'))")
      (simp_all add: blake2s_run_key)
qed

theorem long_key_truncated_witness:
  "blake2b_KeySize < int (length (replicate 65 (1::byte))) \<and>
   blake2s_KeySize < int (length (replicate 33 (1::byte))) \<and>
   blake2b_NewKeyed (Some (replicate 65 1)) \<noteq> None \<and>
   blake2b_run (blake2b_NewKeyed (Some (replicate 65 1))) [[0x61, 0x62, 0x63]]
     = blake2b_run (blake2b_NewKeyed (Some (take 64 (replicate 65 1)))) [[0x61, 0x62, 0x63]] \<and>
   blake2s_NewKeyed (Some (replicate 33 1)) \<noteq> None \<and>
   blake2s_run (blake2s_NewKeyed (Some (replicate 33 1))) [[0x61, 0x62, 0x63]]
     = blake2s_run (blake2s_NewKeyed (Some (take 32 (replicate 33 1)))) [[0x61, 0x62, 0x63]]"
proof -
  have b: "blake2b_KeySize < int (length (replicate 65 (1::byte)))"
    by (simp add: blake2b_KeySize_def)
  have s: "blake2s_KeySize < int (length (replicate 33 (1::byte)))"
    by (simp add: blake2s_KeySize_def)
  show ?thesis
    using b s
      long_key_truncated[of "replicate 65 1" "[[0x61, 0x62, 0x63]]" "replicate 33 1"
        "[[0x61, 0x62, 0x63]]"]
    by blast
qed

section \<open>\<open>Write\<close> and its failures\<close>

text \<open>
  Claim C4. \<open>Write\<close> never fails at run time on a validly configured engine that has not
  been finalised, whatever the input length and the fill of the buffer. In package
  blake2b this holds (lemma \<open>blake2b_Write_returns\<close>). In package blake2s it does not:
  on the engine that \<open>New\<close> returns, a \<open>Write\<close> of 193 bytes, one more than three blocks,
  panics with a slice bound out of range.
\<close>

theorem blake2s_Write_panics_on_new_engine:
  "blake2s_New = Some (blake2s_init None) \<and>
   blake2s_inv (blake2s_init None) \<and>
   f (blake2s_init None) = [0, 0] \<and>
   blake2s_Write (blake2s_init None) (replicate 193 0) = None"
proof -
  have "blake2s_Write (blake2s_init None) (replicate 193 0) = None"
    by (rule blake2s_Write_panics[OF blake2s_inv_init])
       (simp_all add: blake2s_init_def blake2s_BlockSize_def)
  then show ?thesis
    by (simp add: blake2s_New_eq blake2s_inv_init) (simp add: blake2s_init_def)
qed

text \<open>
  Claim C10. \<open>Write\<close> returns \<open>(0, nil)\<close> for every input and every engine state. In package
  blake2b it does (lemma \<open>blake2b_Write_returns\<close>). In package blake2s a first \<open>Write\<close> of 10
  bytes returns \<open>(0, nil)\<close>, and a second \<open>Write\<close> of 200 bytes on the engine it leaves does
  not return: it panics.
\<close>

theorem blake2s_Write_does_not_return:
  "blake2s_Write (blake2s_init None) (replicate 10 1) =
     Some ((blake2s_init None)\<lparr>buf := replicate 10 1 @ replicate 118 0, buflen := 10\<rparr>, 0, None) \<and>
   blake2s_Write ((blake2s_init None)\<lparr>buf := replicate 10 1 @ replicate 118 0, buflen := 10\<rparr>)
     (replicate 200 2) = None"
proof -
  define d1 where
    "d1 = (blake2s_init None)\<lparr>buf := replicate 10 1 @ replicate 118 0, buflen := 10\<rparr>"
  have 1: "blake2s_Write (blake2s_init None) (replicate 10 1) = Some (d1, 0, None)"
    using blake2s_Write_fits[OF blake2s_inv_init, of "replicate 10 1" None]
    by (simp add: blake2s_init_def blake2s_BlockSize_def d1_def)
  have "blake2s_inv d1"
    using blake2s_inv_fits[OF blake2s_inv_init, of "replicate 10 1" None]
    by (simp add: blake2s_init_def blake2s_BlockSize_def d1_def)
  then have 2: "blake2s_Write d1 (replicate 200 2) = None"
    by (rule blake2s_Write_panics) (simp_all add: d1_def blake2s_BlockSize_def)
  show ?thesis using 1 2 by (simp add: d1_def)
qed

section \<open>After \<open>Sum\<close>\<close>

text \<open>
  Claim C6, as stated: once \<open>Sum\<close> has run and \<open>f0\<close> is set, \<open>Write\<close> and \<open>Sum\<close> return a state
  error and leave the engine unchanged. It does not hold. On the engine that \<open>Sum\<close> leaves
  from a new engine, \<open>f0\<close> is all ones; a \<open>Write\<close> of one byte returns \<open>(0, nil)\<close> and moves
  \<open>buflen\<close> from 0 to 1; and a second \<open>Sum\<close> returns 64 more bytes.
\<close>

theorem finalized_engine_accepts_calls_counterexample:
  "blake2b_New = Some (blake2b_init None) \<and>
   map_option fst (blake2b_Sum (blake2b_init None) [])
     = Some (blake2b_final (blake2b_init None)) \<and>
   f (blake2b_final (blake2b_init None)) = [0xffffffffffffffff, 0] \<and>
   buflen (blake2b_final (blake2b_init None)) = 0 \<and>
   map_option (\<lambda>(d, r). (buflen d, r))
       (blake2b_Write (blake2b_final (blake2b_init None)) [0x61])
     = Some (1, 0, None) \<and>
   map_option (length \<circ> snd) (blake2b_Sum (blake2b_final (blake2b_init None)) [])
     = Some 64"
proof -
  define d where "d = blake2b_final (blake2b_init None)"
  have inv: "blake2b_inv d"
    unfolding d_def by (rule blake2b_inv_final[OF blake2b_inv_init])
  have fd: "f d = [0xffffffffffffffff, 0]" and bd: "buflen d = 0"
    by (simp_all add: d_def) (simp_all add: blake2b_init_def blake2b_BlockSize_def)
  have w: "map_option (\<lambda>(d, r). (buflen d, r)) (blake2b_Write d [0x61]) = Some (1, 0, None)"
    using blake2b_Write_fits[OF inv, of "[0x61]"] by (simp add: bd blake2b_BlockSize_def)
  have "length (h (blake2b_final d)) = 8"
    using blake2b_inv_final[OF inv] by (simp add: blake2b_inv_def blake2b_shape_def)
  then have s: "map_option (length \<circ> snd) (blake2b_Sum d []) = Some 64"
    by (simp add: blake2b_Sum_eq[OF inv] blake2b_digest_length)
  show ?thesis
    using fd bd w s
    by (simp add: blake2b_New_eq blake2b_Sum_eq[OF blake2b_inv_init] d_def)
qed

text \<open>
  Claim C6, amended. The code has no state error and does not look at \<open>f0\<close> before it
  works: on a finalised engine \<open>Write\<close> returns \<open>(0, nil)\<close> and takes its input into the
  buffer as it does before \<open>Sum\<close>, leaving \<open>f0\<close> set, and \<open>Sum\<close> returns a further 64 bytes.
\<close>

theorem finalized_engine_accepts_calls:
  assumes "blake2b_inv d" and "f d ! 0 = 0xffffffffffffffff"
  shows "(\<exists>d'. blake2b_Write d b = Some (d', 0, None) \<and> blake2b_inv d' \<and>
               f d' ! 0 = 0xffffffffffffffff \<and>
               int (ncompress d') * blake2b_BlockSize + buflen d'
                 = int (ncompress d) * blake2b_BlockSize + buflen d + int (length b)) \<and>
         (\<exists>out. blake2b_Sum d pre = Some (blake2b_final d, pre @ out) \<and> length out = 64)"
proof
  from blake2b_Write_returns[OF assms(1), of b] assms(2)
  show "\<exists>d'. blake2b_Write d b = Some (d', 0, None) \<and> blake2b_inv d' \<and>
               f d' ! 0 = 0xffffffffffffffff \<and>
               int (ncompress d') * blake2b_BlockSize + buflen d'
                 = int (ncompress d) * blake2b_BlockSize + buflen d + int (length b)"
    by auto
  have "length (h (blake2b_final d)) = 8"
    using blake2b_inv_final[OF assms(1)] by (simp add: blake2b_inv_def blake2b_shape_def)
  then show "\<exists>out. blake2b_Sum d pre = Some (blake2b_final d, pre @ out) \<and> length out = 64"
    by (simp add: blake2b_Sum_eq[OF assms(1)] blake2b_digest_length)
qed

theorem finalized_engine_accepts_calls_witness:
  "blake2b_inv (blake2b_final (blake2b_init None)) \<and>
   f (blake2b_final (blake2b_init None)) ! 0 = 0xffffffffffffffff \<and>
   (\<exists>d'. blake2b_Write (blake2b_final (blake2b_init None)) [0x61] = Some (d', 0, None) \<and>
         f d' ! 0 = 0xffffffffffffffff) \<and>
   (\<exists>out. blake2b_Sum (blake2b_final (blake2b_init None)) []
            = Some (blake2b_final (blake2b_final (blake2b_init None)), out) \<and>
          length out = 64)"
proof -
  have i: "blake2b_inv (blake2b_final (blake2b_init None))"
    by (rule blake2b_inv_final[OF blake2b_inv_init])
  have f0: "f (blake2b_final (blake2b_init None)) ! 0 = 0xffffffffffffffff"
    by (simp add: blake2b_init_def)
  from finalized_engine_accepts_calls[OF i f0, of "[0x61]" "[]"] i f0
  show ?thesis by auto
qed

section \<open>The number of compressions\<close>

text \<open>
  Between calls a new engine that has compressed at all holds more than one block: the
  loop of \<open>Write\<close> compresses a block only when input beyond the second block of the
  buffer has arrived.
\<close>

lemma blake2b_Writes_count:
  assumes "blake2b_inv d" and "ncompress d = 0 \<or> blake2b_BlockSize < buflen d"
  shows "\<exists>d'. blake2b_Writes d bs = Some d' \<and> blake2b_inv d' \<and>
              (ncompress d' = 0 \<or> blake2b_BlockSize < buflen d') \<and>
              int (ncompress d') * blake2b_BlockSize + buflen d'
                = int (ncompress d) * blake2b_BlockSize + buflen d
                  + int (sum_list (map length bs))"
  using assms
proof (induction bs arbitrary: d)
  case Nil
  then show ?case by simp
next
  case (Cons b bs)
  from blake2b_Write_returns[OF Cons.prems(1), of b]
  obtain d1 where d1: "blake2b_Write d b = Some (d1, 0, None)" "blake2b_inv d1"
    "int (ncompress d1) * blake2b_BlockSize + buflen d1
       = int (ncompress d) * blake2b_BlockSize + buflen d + int (length b)"
    "int (length b) \<le> 2 * blake2b_BlockSize - buflen d \<longrightarrow> ncompress d1 = ncompress d"
    "2 * blake2b_BlockSize - buflen d < int (length b) \<longrightarrow> blake2b_BlockSize < buflen d1"
    by auto
  have j1: "ncompress d1 = 0 \<or> blake2b_BlockSize < buflen d1"
  proof (cases "int (length b) \<le> 2 * blake2b_BlockSize - buflen d")
    case True
    with d1(3,4) Cons.prems(2) show ?thesis by auto
  next
    case False
    with d1(5) show ?thesis by simp
  qed
  from Cons.IH[OF d1(2) j1] d1(1,3) show ?case by auto
qed

text \<open>
  Claim C7, as stated: \<open>floor ((len - 1) / B)\<close> compressions occur before \<open>Sum\<close>. It does not
  hold at \<open>len = B + 1\<close>: after a \<open>Write\<close> of 129 bytes to a new engine no compression has
  occurred, where the claim counts one.
\<close>

theorem compressions_before_Sum_counterexample:
  "map_option (\<lambda>(d, r). ncompress d) (blake2b_Write (blake2b_init None) (replicate 129 0))
     = Some 0 \<and>
   (129 - 1) div 128 = (1 :: nat)"
  using blake2b_Write_fits[OF blake2b_inv_init, of "replicate 129 0" None]
  by (simp add: blake2b_init_def blake2b_BlockSize_def)

text \<open>
  Claim C7, amended. The engine holds back up to two blocks. For input of \<open>n\<close> bytes in
  all, written to a new engine in any number of chunks, no compression occurs before
  \<open>Sum\<close> while \<open>n \<le> 2 B\<close>, and \<open>floor ((n - 1) / B) - 1\<close> compressions occur beyond that;
  \<open>Sum\<close> then compresses once when at most one block is left (\<open>n \<le> B\<close>) and twice
  otherwise, so that \<open>floor ((n - 1) / B) + 1\<close> compressions occur in all for \<open>n \<ge> 1\<close>,
  and one for \<open>n = 0\<close>.
\<close>

theorem compressions_count:
  "\<exists>d d' out.
     blake2b_New = Some (blake2b_init None) \<and>
     blake2b_Writes (blake2b_init None) bs = Some d \<and>
     ncompress d = (if sum_list (map length bs) \<le> 256 then 0
                    else (sum_list (map length bs) - 1) div 128 - 1) \<and>
     blake2b_Sum d [] = Some (d', out) \<and>
     ncompress d' = ncompress d + (if sum_list (map length bs) \<le> 128 then 1 else 2) \<and>
     ncompress d' = (if sum_list (map length bs) = 0 then 1
                     else (sum_list (map length bs) - 1) div 128 + 1)"
proof -
  define n where "n = sum_list (map length bs)"
  have j0: "ncompress (blake2b_init None) = 0 \<or> blake2b_BlockSize < buflen (blake2b_init None)"
    by (simp add: blake2b_init_def)
  from blake2b_Writes_count[OF blake2b_inv_init j0, of bs]
  obtain d where d: "blake2b_Writes (blake2b_init None) bs = Some d" "blake2b_inv d"
    "ncompress d = 0 \<or> 128 < buflen d"
    "int (ncompress d) * 128 + buflen d = int n"
    by (auto simp: blake2b_init_def blake2b_BlockSize_def n_def)
  from d(2) have bl: "0 \<le> buflen d" "buflen d \<le> 256"
    by (simp_all add: blake2b_inv_def blake2b_BlockSize_def)
  have c: "ncompress d = (if n \<le> 256 then 0 else (n - 1) div 128 - 1)"
  proof (cases "ncompress d = 0")
    case True
    with d(4) bl show ?thesis by auto
  next
    case False
    with d(3) have big: "128 < buflen d" by simp
    define c where "c = ncompress d"
    define r where "r = nat (buflen d) - 129"
    have r: "r < 128" "buflen d = int r + 129" using big bl by (simp_all add: r_def)
    have n: "n = (c + 1) * 128 + r + 1"
      using d(4) r(2) by (simp add: c_def)
    have "0 < c" using False by (simp add: c_def)
    then have "256 < n" using n by simp
    moreover have "n - 1 = r + (c + 1) * 128" using n by simp
    then have "(n - 1) div 128 = c + 1"
      using r(1) by simp
    ultimately show ?thesis by (simp add: c_def)
  qed
  have b: "buflen d \<le> 128 \<longleftrightarrow> n \<le> 128"
    using d(3,4) bl by (cases "ncompress d = 0") auto
  have s: "blake2b_Sum d [] = Some (blake2b_final d,
             concat (map (\<lambda>i. PutUint64 (h (blake2b_final d) ! i)) [0..<8]))"
    using blake2b_Sum_eq[OF d(2), of "[]"] by simp
  have c': "ncompress (blake2b_final d) = ncompress d + (if n \<le> 128 then 1 else 2)"
    using b by (auto simp: blake2b_BlockSize_def)
  have t: "ncompress (blake2b_final d) = (if n = 0 then 1 else (n - 1) div 128 + 1)"
  proof -
    consider "n = 0" | "0 < n" "n \<le> 128" | "128 < n" "n \<le> 256" | "256 < n"
      by linarith
    then show ?thesis
    proof cases
      case 1
      then show ?thesis using c c' by simp
    next
      case 2
      then have "(n - 1) div 128 = 0" by simp
      then show ?thesis using 2 c c' by simp
    next
      case 3
      define m where "m = n - 129"
      have m: "n = m + 129" "m < 128" using 3 by (simp_all add: m_def)
      have "(m + 129 - 1) div 128 = (m + 1 * 128) div 128" by simp
      also have "\<dots> = 1" using m(2) by simp
      finally have "(n - 1) div 128 = 1" by (simp only: m(1))
      then show ?thesis using 3 c c' by simp
    next
      case 4
      then have "128 \<le> n - 1" by simp
      then have "1 \<le> (n - 1) div 128" by (simp add: Suc_le_eq div_greater_zero_iff)
      then show ?thesis using 4 c c' by simp
    qed
  qed
  show ?thesis
    unfolding n_def[symmetric]
    using blake2b_New_eq d(1) c s c' t by blast
qed

section \<open>The compression function\<close>

text \<open>
  Claim C3. In both packages \<open>compress\<close> builds the work vector \<open>v\<close> as \<open>h\<close>, then
  \<open>IV[0..4)\<close>, then \<open>t0 XOR IV[4]\<close>, \<open>t1 XOR IV[5]\<close>, \<open>f0 XOR IV[6]\<close>, \<open>f1 XOR IV[7]\<close>; runs 12
  rounds (blake2b) or 10 rounds (blake2s) of the eight mixing steps, selected by \<open>sigma\<close>,
  with rotations by 32, 24, 16, 63 (blake2b) or 16, 12, 8, 7 (blake2s) and arithmetic
  modulo \<open>2 ^ W\<close>; and sets \<open>h[i]\<close> to \<open>h[i] XOR v[i] XOR v[i + 8]\<close>. No other field of the
  struct changes (the counter \<open>ncompress\<close> of the model apart).
\<close>

theorem compress_is_spec_compression:
  "(blake2b_shape d \<longrightarrow>
      blake2b_v_init d = spec_work_vector blake2b_iv d \<and>
      blake2b_compress d =
        d\<lparr>h := spec_compress_h 12 (32, 24, 16, 63) blake2b_sigma blake2b_iv (blake2b_m d) d,
          ncompress := ncompress d + 1\<rparr>) \<and>
   (blake2s_shape d' \<longrightarrow>
      blake2s_v_init d' = spec_work_vector blake2s_iv d' \<and>
      blake2s_compress d' =
        d'\<lparr>h := spec_compress_h 10 (16, 12, 8, 7) blake2s_sigma blake2s_iv (blake2s_m d') d',
           ncompress := ncompress d' + 1\<rparr>)"
  by (simp add: blake2b_compress_spec blake2s_compress_spec blake2b_v_init_spec
        blake2s_v_init_spec blake2b_shape_def blake2s_shape_def)

theorem compress_is_spec_compression_witness:
  "blake2b_shape (blake2b_init None) \<and> blake2s_shape (blake2s_init None) \<and>
   blake2b_compress (blake2b_init None) =
     (blake2b_init None)
       \<lparr>h := spec_compress_h 12 (32, 24, 16, 63) blake2b_sigma blake2b_iv
               (blake2b_m (blake2b_init None)) (blake2b_init None),
        ncompress := ncompress (blake2b_init None) + 1\<rparr> \<and>
   blake2s_compress (blake2s_init None) =
     (blake2s_init None)
       \<lparr>h := spec_compress_h 10 (16, 12, 8, 7) blake2s_sigma blake2s_iv
               (blake2s_m (blake2s_init None)) (blake2s_init None),
        ncompress := ncompress (blake2s_init None) + 1\<rparr>"
proof -
  have b: "blake2b_shape (blake2b_init None)"
    using blake2b_inv_init[of None] by (simp add: blake2b_inv_def)
  have s: "blake2s_shape (blake2s_init None)"
    using blake2s_inv_init[of None] by (simp add: blake2s_inv_def)
  show ?thesis
    using b s compress_is_spec_compression[of "blake2b_init None" "blake2s_init None"]
    by blast
qed

section \<open>Known answers\<close>

text \<open>
  The digests of the empty message and of \<open>abc\<close>, computed by the model: one \<open>Write\<close> on the
  engine of \<open>New()\<close>, which only fills the buffer, then \<open>Sum\<close>, which compresses one final
  block. For each message the message words, the rounds on the work vector and the digest
  are evaluated in turn.
\<close>

lemma blake2b_m_empty:
  "buf d = replicate 256 0 \<Longrightarrow>
   blake2b_m d = [0, 0, 0, 0, 0, 0, 0, 0, 0, 0, 0, 0, 0, 0, 0, 0]"
  by (simp add: blake2b_m_def upt_16 Uint64_def nth_append)

lemma blake2b_rounds_empty:
  "fold (blake2b_round [0, 0, 0, 0, 0, 0, 0, 0, 0, 0, 0, 0, 0, 0, 0, 0]) [0..<12]

        [0x6a09e667f2bdc948, 0xbb67ae8584caa73b, 0x3c6ef372fe94f82b, 0xa54ff53a5f1d36f1,
         0x510e527fade682d1, 0x9b05688c2b3e6c1f, 0x1f83d9abfb41bd6b, 0x5be0cd19137e2179,
         0x6a09e667f3bcc908, 0xbb67ae8584caa73b, 0x3c6ef372fe94f82b, 0xa54ff53a5f1d36f1,
         0x510e527fade682d1, 0x9b05688c2b3e6c1f, 0xe07c265404be4294, 0x5be0cd19137e2179]
   =
        [0xf073bffaf051091c, 0x2aae4f5841e01ac0, 0xd27ff3884b83021c, 0xce5f22010215aa1e,
         0x7c8eb0f00adc62b, 0xfc64ba212c28bea0, 0x405e700d2c635d3c, 0xee9b2389c76da0d2,
         0x992358dff5eeaa2c, 0xe31bb3f840d77b3d, 0x8f56581bf550d5a6, 0x7244c8cc4aea1a65,
         0x59e57df9c5b1a28, 0x2cd19c3e43725bac, 0xa6ae1b28c4adac7, 0x7b99756ece63ee7e]"
  by (simp add: upt_12 blake2b_round_def Let_def blake2b_G_eval blake2b_mix_eval rotr64_eval
        blake2b_sigma_def cong: let_weak_cong)

lemma blake2b_digest_empty:
  "blake2b_run blake2b_New [[]] =
     Some
        [0x78, 0x6a, 0x2, 0xf7, 0x42, 0x1, 0x59, 0x3, 0xc6, 0xc6, 0xfd, 0x85, 0x25, 0x52,
         0xd2, 0x72, 0x91, 0x2f, 0x47, 0x40, 0xe1, 0x58, 0x47, 0x61, 0x8a, 0x86, 0xe2, 0x17,
         0xf7, 0x1f, 0x54, 0x19, 0xd2, 0x5e, 0x10, 0x31, 0xaf, 0xee, 0x58, 0x53, 0x13, 0x89,
         0x64, 0x44, 0x93, 0x4e, 0xb0, 0x4b, 0x90, 0x3a, 0x68, 0x5b, 0x14, 0x48, 0xb7, 0x55,
         0xd5, 0x6f, 0x70, 0x1a, 0xfe, 0x9b, 0xe2, 0xce]"
proof -
  define d1 where "d1 = (blake2b_init None)\<lparr>buf := replicate 256 0, buflen := 0\<rparr>"
  have w: "blake2b_Write (blake2b_init None) [] = Some (d1, 0, None)"
    using blake2b_Write_fits[OF blake2b_inv_init, of "[]" None]
    by (simp add: blake2b_init_None blake2b_BlockSize_def d1_def)
  have inv1: "blake2b_inv d1"
    using blake2b_inv_fits[OF blake2b_inv_init, of "[]" None]
    by (simp add: blake2b_init_None blake2b_BlockSize_def d1_def)
  define X where "X = (blake2b_incrementCounter d1 0)\<lparr>f := [0xffffffffffffffff, 0],
      buf := replicate 256 0\<rparr>"
  have fin: "blake2b_final d1 = blake2b_compress X"
    by (simp add: blake2b_final_def blake2b_last_block_def Let_def d1_def X_def
          blake2b_BlockSize_def blake2b_init_None)
  have mX: "blake2b_m X = [0, 0, 0, 0, 0, 0, 0, 0, 0, 0, 0, 0, 0, 0, 0, 0]"
    by (rule blake2b_m_empty) (simp add: X_def)
  have hX0: "h X =
        [0x6a09e667f2bdc948, 0xbb67ae8584caa73b, 0x3c6ef372fe94f82b, 0xa54ff53a5f1d36f1,
         0x510e527fade682d1, 0x9b05688c2b3e6c1f, 0x1f83d9abfb41bd6b, 0x5be0cd19137e2179]"
    and tX: "t X = [0, 0]" and fX: "f X = [0xffffffffffffffff, 0]"
    by (simp_all add: X_def d1_def blake2b_init_None blake2b_incrementCounter_def Let_def)
  have v0: "(
        [0x6a09e667f2bdc948,
         0xbb67ae8584caa73b,
         0x3c6ef372fe94f82b,
         0xa54ff53a5f1d36f1,
         0x510e527fade682d1,
         0x9b05688c2b3e6c1f,
         0x1f83d9abfb41bd6b,
         0x5be0cd19137e2179,
         0x6a09e667f3bcc908,
         0xbb67ae8584caa73b,
         0x3c6ef372fe94f82b,
         0xa54ff53a5f1d36f1,
         0 XOR 0x510e527fade682d1,
         0 XOR 0x9b05688c2b3e6c1f,
         0xffffffffffffffff XOR 0x1f83d9abfb41bd6b,
         0 XOR 0x5be0cd19137e2179] :: uint64 list)
      =
        [0x6a09e667f2bdc948, 0xbb67ae8584caa73b, 0x3c6ef372fe94f82b, 0xa54ff53a5f1d36f1,
         0x510e527fade682d1, 0x9b05688c2b3e6c1f, 0x1f83d9abfb41bd6b, 0x5be0cd19137e2179,
         0x6a09e667f3bcc908, 0xbb67ae8584caa73b, 0x3c6ef372fe94f82b, 0xa54ff53a5f1d36f1,
         0x510e527fade682d1, 0x9b05688c2b3e6c1f, 0xe07c265404be4294, 0x5be0cd19137e2179]"
    by simp
  have hX: "h (blake2b_compress X) =
        [0x3590142f7026a78, 0x72d2522585fdc6c6, 0x614758e140472f91, 0x19541ff717e2868a,
         0x5358eeaf31105ed2, 0x4bb04e9344648913, 0x55b748145b683a90, 0xcee29bfe1a706fd5]"
    by (rule blake2b_compress_eval[OF mX hX0 tX fX v0 blake2b_rounds_empty, THEN trans]) simp
  show ?thesis
    by (simp add: blake2b_run_def blake2b_New_eq w blake2b_Sum_eq[OF inv1] fin hX upt_8
          PutUint64_def)
qed

lemma blake2b_m_abc:
  "buf d = [0x61, 0x62, 0x63] @ replicate 253 0 \<Longrightarrow>
   blake2b_m d =
        [0x636261, 0, 0, 0, 0, 0, 0, 0,
         0, 0, 0, 0, 0, 0, 0, 0]"
  by (simp add: blake2b_m_def upt_16 Uint64_def nth_append)

lemma blake2b_rounds_abc:
  "fold (blake2b_round
        [0x636261, 0, 0, 0, 0, 0, 0, 0,
         0, 0, 0, 0, 0, 0, 0, 0]) [0..<12]

        [0x6a09e667f2bdc948, 0xbb67ae8584caa73b, 0x3c6ef372fe94f82b, 0xa54ff53a5f1d36f1,
         0x510e527fade682d1, 0x9b05688c2b3e6c1f, 0x1f83d9abfb41bd6b, 0x5be0cd19137e2179,
         0x6a09e667f3bcc908, 0xbb67ae8584caa73b, 0x3c6ef372fe94f82b, 0xa54ff53a5f1d36f1,
         0x510e527fade682d2, 0x9b05688c2b3e6c1f, 0xe07c265404be4294, 0x5be0cd19137e2179]
   =
        [0x12ef8a641ec4f6d6, 0xbced5de977c9faf5, 0x733ca476c5148639, 0x97df596b0610f6fc,
         0xf42c16519ad5afa7, 0xaa5ac1888e10467e, 0x217d930aa51787f3, 0x906a6ff19e573942,
         0x75ab709bd3dcbf24, 0xee7ce1f345947aa4, 0xf8960d6c2faf5f5e, 0xe332538a36b6d246,
         0x885bef040ef6aa0b, 0xa4939a417bfb78a3, 0x646cbb7af6dce980, 0xe813a23c60af3b82]"
  by (simp add: upt_12 blake2b_round_def Let_def blake2b_G_eval blake2b_mix_eval rotr64_eval
        blake2b_sigma_def cong: let_weak_cong)

lemma blake2b_digest_abc:
  "blake2b_run blake2b_New [[0x61, 0x62, 0x63]] =
     Some
        [0xba, 0x80, 0xa5, 0x3f, 0x98, 0x1c, 0x4d, 0xd, 0x6a, 0x27, 0x97, 0xb6, 0x9f, 0x12,
         0xf6, 0xe9, 0x4c, 0x21, 0x2f, 0x14, 0x68, 0x5a, 0xc4, 0xb7, 0x4b, 0x12, 0xbb, 0x6f,
         0xdb, 0xff, 0xa2, 0xd1, 0x7d, 0x87, 0xc5, 0x39, 0x2a, 0xab, 0x79, 0x2d, 0xc2, 0x52,
         0xd5, 0xde, 0x45, 0x33, 0xcc, 0x95, 0x18, 0xd3, 0x8a, 0xa8, 0xdb, 0xf1, 0x92, 0x5a,
         0xb9, 0x23, 0x86, 0xed, 0xd4, 0, 0x99, 0x23]"
proof -
  define d1 where "d1 = (blake2b_init None)\<lparr>buf := [0x61, 0x62, 0x63] @ replicate 253 0, buflen := 3\<rparr>"
  have w: "blake2b_Write (blake2b_init None) [0x61, 0x62, 0x63] = Some (d1, 0, None)"
    using blake2b_Write_fits[OF blake2b_inv_init, of "[0x61, 0x62, 0x63]" None]
    by (simp add: blake2b_init_None blake2b_BlockSize_def d1_def)
  have inv1: "blake2b_inv d1"
    using blake2b_inv_fits[OF blake2b_inv_init, of "[0x61, 0x62, 0x63]" None]
    by (simp add: blake2b_init_None blake2b_BlockSize_def d1_def)
  define X where "X = (blake2b_incrementCounter d1 3)\<lparr>f := [0xffffffffffffffff, 0],
      buf := [0x61, 0x62, 0x63] @ replicate 253 0\<rparr>"
  have fin: "blake2b_final d1 = blake2b_compress X"
    by (simp add: blake2b_final_def blake2b_last_block_def Let_def d1_def X_def
          blake2b_BlockSize_def blake2b_init_None)
  have mX: "blake2b_m X =
        [0x636261, 0, 0, 0, 0, 0, 0, 0,
         0, 0, 0, 0, 0, 0, 0, 0]"
    by (rule blake2b_m_abc) (simp add: X_def)
  have hX0: "h X =
        [0x6a09e667f2bdc948, 0xbb67ae8584caa73b, 0x3c6ef372fe94f82b, 0xa54ff53a5f1d36f1,
         0x510e527fade682d1, 0x9b05688c2b3e6c1f, 0x1f83d9abfb41bd6b, 0x5be0cd19137e2179]"
    and tX: "t X = [3, 0]" and fX: "f X = [0xffffffffffffffff, 0]"
    by (simp_all add: X_def d1_def blake2b_init_None blake2b_incrementCounter_def Let_def)
  have v0: "(
        [0x6a09e667f2bdc948,
         0xbb67ae8584caa73b,
         0x3c6ef372fe94f82b,
         0xa54ff53a5f1d36f1,
         0x510e527fade682d1,
         0x9b05688c2b3e6c1f,
         0x1f83d9abfb41bd6b,
         0x5be0cd19137e2179,
         0x6a09e667f3bcc908,
         0xbb67ae8584caa73b,
         0x3c6ef372fe94f82b,
         0xa54ff53a5f1d36f1,
         3 XOR 0x510e527fade682d1,
         0 XOR 0x9b05688c2b3e6c1f,
         0xffffffffffffffff XOR 0x1f83d9abfb41bd6b,
         0 XOR 0x5be0cd19137e2179] :: uint64 list)
      =
        [0x6a09e667f2bdc948, 0xbb67ae8584caa73b, 0x3c6ef372fe94f82b, 0xa54ff53a5f1d36f1,
         0x510e527fade682d1, 0x9b05688c2b3e6c1f, 0x1f83d9abfb41bd6b, 0x5be0cd19137e2179,
         0x6a09e667f3bcc908, 0xbb67ae8584caa73b, 0x3c6ef372fe94f82b, 0xa54ff53a5f1d36f1,
         0x510e527fade682d2, 0x9b05688c2b3e6c1f, 0xe07c265404be4294, 0x5be0cd19137e2179]"
    by simp
  have hX: "h (blake2b_compress X) =
        [0xd4d1c983fa580ba, 0xe9f6129fb697276a, 0xb7c45a68142f214c, 0xd1a2ffdb6fbb124b,
         0x2d79ab2a39c5877d, 0x95cc3345ded552c2, 0x5a92f1dba88ad318, 0x239900d4ed8623b9]"
    by (rule blake2b_compress_eval[OF mX hX0 tX fX v0 blake2b_rounds_abc, THEN trans]) simp
  show ?thesis
    by (simp add: blake2b_run_def blake2b_New_eq w blake2b_Sum_eq[OF inv1] fin hX upt_8
          PutUint64_def)
qed

lemma blake2s_m_empty:
  "buf d = replicate 128 0 \<Longrightarrow>
   blake2s_m d = [0, 0, 0, 0, 0, 0, 0, 0, 0, 0, 0, 0, 0, 0, 0, 0]"
  by (simp add: blake2s_m_def upt_16 Uint32_def nth_append)

lemma blake2s_rounds_empty:
  "fold (blake2s_round [0, 0, 0, 0, 0, 0, 0, 0, 0, 0, 0, 0, 0, 0, 0, 0]) [0..<10]

        [0x6b08e647, 0xbb67ae85, 0x3c6ef372, 0xa54ff53a, 0x510e527f, 0x9b05688c, 0x1f83d9ab,
         0x5be0cd19, 0x6a09e667, 0xbb67ae85, 0x3c6ef372, 0xa54ff53a, 0x510e527f, 0x9b05688c,
         0xe07c2654, 0x5be0cd19]
   =
        [0xd413382a, 0xdafc3ae3, 0x4ba85ee5, 0x8dcd5a04, 0xf0fdf183, 0xa8835af0, 0xe94c7c22,
         0xc346a16f, 0x8f61ff04, 0xf51b041f, 0xa7e7bc76, 0x54c89a7c, 0xe945f6e3, 0x2d239350,
         0xbc28092, 0x6148bc68]"
  by (simp add: upt_10 blake2s_round_def Let_def blake2s_G_eval blake2s_mix_eval rotr32_eval
        blake2s_sigma_def cong: let_weak_cong)

lemma blake2s_digest_empty:
  "blake2s_run blake2s_New [[]] =
     Some
        [0x69, 0x21, 0x7a, 0x30, 0x79, 0x90, 0x80, 0x94, 0xe1, 0x11, 0x21, 0xd0, 0x42, 0x35,
         0x4a, 0x7c, 0x1f, 0x55, 0xb6, 0x48, 0x2c, 0xa1, 0xa5, 0x1e, 0x1b, 0x25, 0xd, 0xfd,
         0x1e, 0xd0, 0xee, 0xf9]"
proof -
  define d1 where "d1 = (blake2s_init None)\<lparr>buf := replicate 128 0, buflen := 0\<rparr>"
  have w: "blake2s_Write (blake2s_init None) [] = Some (d1, 0, None)"
    using blake2s_Write_fits[OF blake2s_inv_init, of "[]" None]
    by (simp add: blake2s_init_None blake2s_BlockSize_def d1_def)
  have inv1: "blake2s_inv d1"
    using blake2s_inv_fits[OF blake2s_inv_init, of "[]" None]
    by (simp add: blake2s_init_None blake2s_BlockSize_def d1_def)
  define X where "X = (blake2s_incrementCounter d1 0)\<lparr>f := [0xffffffff, 0],
      buf := replicate 128 0\<rparr>"
  have fin: "blake2s_final d1 = blake2s_compress X"
    by (simp add: blake2s_final_def blake2s_last_block_def Let_def d1_def X_def
          blake2s_BlockSize_def blake2s_init_None)
  have mX: "blake2s_m X = [0, 0, 0, 0, 0, 0, 0, 0, 0, 0, 0, 0, 0, 0, 0, 0]"
    by (rule blake2s_m_empty) (simp add: X_def)
  have hX0: "h X =
        [0x6b08e647, 0xbb67ae85, 0x3c6ef372, 0xa54ff53a, 0x510e527f, 0x9b05688c, 0x1f83d9ab,
         0x5be0cd19]"
    and tX: "t X = [0, 0]" and fX: "f X = [0xffffffff, 0]"
    by (simp_all add: X_def d1_def blake2s_init_None blake2s_incrementCounter_def Let_def)
  have v0: "(
        [0x6b08e647, 0xbb67ae85, 0x3c6ef372,
         0xa54ff53a, 0x510e527f, 0x9b05688c,
         0x1f83d9ab, 0x5be0cd19, 0x6a09e667,
         0xbb67ae85, 0x3c6ef372, 0xa54ff53a,
         0 XOR 0x510e527f, 0 XOR 0x9b05688c, 0xffffffff XOR 0x1f83d9ab,
         0 XOR 0x5be0cd19] :: uint32 list)
      =
        [0x6b08e647, 0xbb67ae85, 0x3c6ef372, 0xa54ff53a, 0x510e527f, 0x9b05688c, 0x1f83d9ab,
         0x5be0cd19, 0x6a09e667, 0xbb67ae85, 0x3c6ef372, 0xa54ff53a, 0x510e527f, 0x9b05688c,
         0xe07c2654, 0x5be0cd19]"
    by simp
  have hX: "h (blake2s_compress X) =
        [0x307a2169, 0x94809079, 0xd02111e1, 0x7c4a3542, 0x48b6551f, 0x1ea5a12c, 0xfd0d251b,
         0xf9eed01e]"
    by (rule blake2s_compress_eval[OF mX hX0 tX fX v0 blake2s_rounds_empty, THEN trans]) simp
  show ?thesis
    by (simp add: blake2s_run_def blake2s_New_eq w blake2s_Sum_eq[OF inv1] fin hX upt_8
          PutUint32_def)
qed

lemma blake2s_m_abc:
  "buf d = [0x61, 0x62, 0x63] @ replicate 125 0 \<Longrightarrow>
   blake2s_m d =
        [0x636261, 0, 0, 0, 0, 0, 0, 0,
         0, 0, 0, 0, 0, 0, 0, 0]"
  by (simp add: blake2s_m_def upt_16 Uint32_def nth_append)

lemma blake2s_rounds_abc:
  "fold (blake2s_round
        [0x636261, 0, 0, 0, 0, 0, 0, 0,
         0, 0, 0, 0, 0, 0, 0, 0]) [0..<10]

        [0x6b08e647, 0xbb67ae85, 0x3c6ef372, 0xa54ff53a, 0x510e527f, 0x9b05688c, 0x1f83d9ab,
         0x5be0cd19, 0x6a09e667, 0xbb67ae85, 0x3c6ef372, 0xa54ff53a, 0x510e527c, 0x9b05688c,
         0xe07c2654, 0x5be0cd19]
   =
        [0xd9c994aa, 0xcfec3aa6, 0x700d0ab2, 0x2c38670e, 0xaf6a1f66, 0x1d023ef3, 0x1d9ec27d,
         0x945357a5, 0x3e9ffebd, 0x969fe811, 0xef485e21, 0xa632797a, 0xdeef082e, 0xaf3d80e1,
         0x4e86829b, 0x4deafd3a]"
  by (simp add: upt_10 blake2s_round_def Let_def blake2s_G_eval blake2s_mix_eval rotr32_eval
        blake2s_sigma_def cong: let_weak_cong)

lemma blake2s_digest_abc:
  "blake2s_run blake2s_New [[0x61, 0x62, 0x63]] =
     Some
        [0x50, 0x8c, 0x5e, 0x8c, 0x32, 0x7c, 0x14, 0xe2, 0xe1, 0xa7, 0x2b, 0xa3, 0x4e, 0xeb,
         0x45, 0x2f, 0x37, 0x45, 0x8b, 0x20, 0x9e, 0xd6, 0x3a, 0x29, 0x4d, 0x99, 0x9b, 0x4c,
         0x86, 0x67, 0x59, 0x82]"
proof -
  define d1 where "d1 = (blake2s_init None)\<lparr>buf := [0x61, 0x62, 0x63] @ replicate 125 0, buflen := 3\<rparr>"
  have w: "blake2s_Write (blake2s_init None) [0x61, 0x62, 0x63] = Some (d1, 0, None)"
    using blake2s_Write_fits[OF blake2s_inv_init, of "[0x61, 0x62, 0x63]" None]
    by (simp add: blake2s_init_None blake2s_BlockSize_def d1_def)
  have inv1: "blake2s_inv d1"
    using blake2s_inv_fits[OF blake2s_inv_init, of "[0x61, 0x62, 0x63]" None]
    by (simp add: blake2s_init_None blake2s_BlockSize_def d1_def)
  define X where "X = (blake2s_incrementCounter d1 3)\<lparr>f := [0xffffffff, 0],
      buf := [0x61, 0x62, 0x63] @ replicate 125 0\<rparr>"
  have fin: "blake2s_final d1 = blake2s_compress X"
    by (simp add: blake2s_final_def blake2s_last_block_def Let_def d1_def X_def
          blake2s_BlockSize_def blake2s_init_None)
  have mX: "blake2s_m X =
        [0x636261, 0, 0, 0, 0, 0, 0, 0,
         0, 0, 0, 0, 0, 0, 0, 0]"
    by (rule blake2s_m_abc) (simp add: X_def)
  have hX0: "h X =
        [0x6b08e647, 0xbb67ae85, 0x3c6ef372, 0xa54ff53a, 0x510e527f, 0x9b05688c, 0x1f83d9ab,
         0x5be0cd19]"
    and tX: "t X = [3, 0]" and fX: "f X = [0xffffffff, 0]"
    by (simp_all add: X_def d1_def blake2s_init_None blake2s_incrementCounter_def Let_def)
  have v0: "(
        [0x6b08e647, 0xbb67ae85, 0x3c6ef372,
         0xa54ff53a, 0x510e527f, 0x9b05688c,
         0x1f83d9ab, 0x5be0cd19, 0x6a09e667,
         0xbb67ae85, 0x3c6ef372, 0xa54ff53a,
         3 XOR 0x510e527f, 0 XOR 0x9b05688c, 0xffffffff XOR 0x1f83d9ab,
         0 XOR 0x5be0cd19] :: uint32 list)
      =
        [0x6b08e647, 0xbb67ae85, 0x3c6ef372, 0xa54ff53a, 0x510e527f, 0x9b05688c, 0x1f83d9ab,
         0x5be0cd19, 0x6a09e667, 0xbb67ae85, 0x3c6ef372, 0xa54ff53a, 0x510e527c, 0x9b05688c,
         0xe07c2654, 0x5be0cd19]"
    by simp
  have hX: "h (blake2s_compress X) =
        [0x8c5e8c50, 0xe2147c32, 0xa32ba7e1, 0x2f45eb4e, 0x208b4537, 0x293ad69e, 0x4c9b994d,
         0x82596786]"
    by (rule blake2s_compress_eval[OF mX hX0 tX fX v0 blake2s_rounds_abc, THEN trans]) simp
  show ?thesis
    by (simp add: blake2s_run_def blake2s_New_eq w blake2s_Sum_eq[OF inv1] fin hX upt_8
          PutUint32_def)
qed

text \<open>
  Claim C8. With no key and the full digest length, the digest of the empty message and the
  digest of the three bytes \<open>abc\<close> are the reference values of BLAKE2b-512 and BLAKE2s-256:
  for BLAKE2b \<open>786a02f7 ... be2ce\<close> and \<open>ba80a53f ... 09923\<close> (RFC 7693, appendix A), for
  BLAKE2s \<open>69217a30 ... 0eef9\<close> and \<open>508c5e8c ... 75982\<close> (RFC 7693, appendix B).
\<close>

theorem known_answers:
  "blake2b_run blake2b_New [[]] =
     Some
        [0x78, 0x6a, 0x2, 0xf7, 0x42, 0x1, 0x59, 0x3, 0xc6, 0xc6, 0xfd, 0x85, 0x25, 0x52,
         0xd2, 0x72, 0x91, 0x2f, 0x47, 0x40, 0xe1, 0x58, 0x47, 0x61, 0x8a, 0x86, 0xe2, 0x17,
         0xf7, 0x1f, 0x54, 0x19, 0xd2, 0x5e, 0x10, 0x31, 0xaf, 0xee, 0x58, 0x53, 0x13, 0x89,
         0x64, 0x44, 0x93, 0x4e, 0xb0, 0x4b, 0x90, 0x3a, 0x68, 0x5b, 0x14, 0x48, 0xb7, 0x55,
         0xd5, 0x6f, 0x70, 0x1a, 0xfe, 0x9b, 0xe2, 0xce] \<and>
   blake2b_run blake2b_New [[0x61, 0x62, 0x63]] =
     Some
        [0xba, 0x80, 0xa5, 0x3f, 0x98, 0x1c, 0x4d, 0xd, 0x6a, 0x27, 0x97, 0xb6, 0x9f, 0x12,
         0xf6, 0xe9, 0x4c, 0x21, 0x2f, 0x14, 0x68, 0x5a, 0xc4, 0xb7, 0x4b, 0x12, 0xbb, 0x6f,
         0xdb, 0xff, 0xa2, 0xd1, 0x7d, 0x87, 0xc5, 0x39, 0x2a, 0xab, 0x79, 0x2d, 0xc2, 0x52,
         0xd5, 0xde, 0x45, 0x33, 0xcc, 0x95, 0x18, 0xd3, 0x8a, 0xa8, 0xdb, 0xf1, 0x92, 0x5a,
         0xb9, 0x23, 0x86, 0xed, 0xd4, 0, 0x99, 0x23] \<and>
   blake2s_run blake2s_New [[]] =
     Some
        [0x69, 0x21, 0x7a, 0x30, 0x79, 0x90, 0x80, 0x94, 0xe1, 0x11, 0x21, 0xd0, 0x42, 0x35,
         0x4a, 0x7c, 0x1f, 0x55, 0xb6, 0x48, 0x2c, 0xa1, 0xa5, 0x1e, 0x1b, 0x25, 0xd, 0xfd,
         0x1e, 0xd0, 0xee, 0xf9] \<and>
   blake2s_run blake2s_New [[0x61, 0x62, 0x63]] =
     Some
        [0x50, 0x8c, 0x5e, 0x8c, 0x32, 0x7c, 0x14, 0xe2, 0xe1, 0xa7, 0x2b, 0xa3, 0x4e, 0xeb,
         0x45, 0x2f, 0x37, 0x45, 0x8b, 0x20, 0x9e, 0xd6, 0x3a, 0x29, 0x4d, 0x99, 0x9b, 0x4c,
         0x86, 0x67, 0x59, 0x82]"
  by (intro conjI)
    (rule blake2b_digest_empty blake2b_digest_abc blake2s_digest_empty blake2s_digest_abc)+

section \<open>One \<open>Write\<close> against two\<close>

text \<open>
  Package blake2s, a new engine, \<open>a\<close> of 128 bytes and \<open>b\<close> of 65 bytes: the two calls and
  \<open>Sum\<close> return a digest, and the single call of \<open>Write\<close> on \<open>a @ b\<close> panics.
\<close>

lemma blake2s_split_single_Write:
  "blake2s_run blake2s_New [replicate 128 0 @ replicate 65 0] = None \<and>
   blake2s_run blake2s_New [replicate 128 0, replicate 65 0] \<noteq> None"
proof -
  define a :: "byte list" where "a = replicate 128 0"
  define b :: "byte list" where "b = replicate 65 0"
  define d0 where "d0 = blake2s_init None"
  have inv0: "blake2s_inv d0" and b0: "buflen d0 = 0"
    by (simp_all add: d0_def blake2s_inv_init) (simp add: blake2s_init_def)
  have "blake2s_Write d0 (a @ b) = None"
    using inv0 by (rule blake2s_Write_panics) (simp_all add: b0 blake2s_BlockSize_def a_def b_def)
  then have single: "blake2s_run blake2s_New [a @ b] = None"
    by (simp add: blake2s_run_def blake2s_New_eq d0_def)
  define d1 where "d1 = d0\<lparr>buf := take (nat (buflen d0)) (buf d0) @ a
                         @ drop (nat (buflen d0) + length a) (buf d0),
                   buflen := buflen d0 + int (length a)\<rparr>"
  have w1: "blake2s_Write d0 a = Some (d1, 0, None)"
    unfolding d1_def using inv0
    by (rule blake2s_Write_fits) (simp add: b0 a_def blake2s_BlockSize_def)
  have inv1: "blake2s_inv d1"
    unfolding d1_def using inv0
    by (rule blake2s_inv_fits) (simp add: b0 a_def blake2s_BlockSize_def)
  have b1: "buflen d1 = 128" by (simp add: d1_def b0 a_def)
  define d2 where "d2 = blake2s_flush d1 (take (nat (2 * blake2s_BlockSize - buflen d1)) b)"
  have s2: "blake2s_Write_loop d1 b 0 65 = blake2s_Write_loop d2 b 0 65"
    using blake2s_Write_loop_flush[OF inv1, of 65 b 0]
    by (simp add: b1 blake2s_BlockSize_def b_def d2_def)
  have inv2: "blake2s_inv d2"
    unfolding d2_def using inv1 by (rule blake2s_inv_flush) (simp add: b1 blake2s_BlockSize_def)
  have b2: "buflen d2 = 64" by (simp add: d2_def blake2s_BlockSize_def)
  define d3 where "d3 = blake2s_flush d2 (take (nat (2 * blake2s_BlockSize - buflen d2)) b)"
  have s3: "blake2s_Write_loop d2 b 0 65 = blake2s_Write_loop d3 b 64 1"
    using blake2s_Write_loop_flush[OF inv2, of 65 b 0]
    by (simp add: b2 blake2s_BlockSize_def b_def d3_def)
  have inv3: "blake2s_inv d3"
    unfolding d3_def using inv2
    by (rule blake2s_inv_flush) (simp add: b2 blake2s_BlockSize_def b_def)
  have b3: "buflen d3 = 64" by (simp add: d3_def blake2s_BlockSize_def)
  define d4 where "d4 = d3\<lparr>buf := take (nat (buflen d3)) (buf d3) @ drop (nat 64) b
                       @ drop (nat (buflen d3 + 1)) (buf d3),
                 buflen := buflen d3 + 1\<rparr>"
  have s4: "blake2s_Write_loop d3 b 64 1 = Some d4"
    unfolding d4_def using inv3
    by (rule blake2s_Write_loop_tail) (simp_all add: b3 blake2s_BlockSize_def b_def)
  have inv4: "blake2s_inv d4"
    unfolding d4_def using inv3
    by (rule blake2s_inv_tail) (simp_all add: b3 blake2s_BlockSize_def b_def)
  have w2: "blake2s_Write d1 b = Some (d4, 0, None)"
    using s2 s3 s4 by (simp add: blake2s_Write_def b_def)
  have "blake2s_run blake2s_New [a, b] \<noteq> None"
    by (simp add: blake2s_run_def blake2s_New_eq d0_def[symmetric] w1 w2 blake2s_Sum_eq[OF inv4])
  with single show ?thesis by (simp add: a_def b_def)
qed

text \<open>
  Claim C2. Writing \<open>a\<close> and then \<open>b\<close> gives the digest of writing \<open>a @ b\<close> at once. It does
  not. In package blake2b, with \<open>a\<close> of 256 bytes of value 1 and \<open>b\<close> of 129 bytes of value 0
  on a new engine, the single call and the two calls give two different digests; the one of
  the two calls is the BLAKE2b-512 digest of \<open>a @ b\<close>. In package blake2s, with \<open>a\<close> of 128
  bytes and \<open>b\<close> of 65 bytes, the two calls give a digest and the single call panics.
\<close>

theorem split_differs_from_single_Write:
  "blake2b_run blake2b_New [replicate 256 1 @ replicate 129 0] =
     Some
        [0x6b, 0x72, 0x98, 0x66, 0xb6, 0xe9, 0x3a, 0x65, 0x4b, 0x2c, 0xab, 0xf2, 0x09, 0xd3,
         0x39, 0x97, 0xb5, 0xec, 0x1d, 0x5d, 0xe9, 0xa6, 0xde, 0xc9, 0xbf, 0xd7, 0x4c, 0x5b,
         0xe1, 0xcd, 0x93, 0xfe, 0xb4, 0x53, 0xd8, 0xa9, 0x21, 0x70, 0x40, 0x24, 0x0c, 0x70,
         0x5f, 0x4d, 0x22, 0x53, 0xf1, 0x64, 0x8a, 0xc6, 0x5f, 0xca, 0xf5, 0x0e, 0xce, 0x68,
         0xbb, 0xd6, 0x6e, 0xb9, 0x79, 0x5f, 0x9d, 0xa6] \<and>
   blake2b_run blake2b_New [replicate 256 1, replicate 129 0] =
     Some
        [0x04, 0xb0, 0xa0, 0x1f, 0xe4, 0x22, 0x7d, 0xdf, 0xca, 0xe0, 0x13, 0x88, 0x3a, 0xbf,
         0x59, 0x1b, 0x85, 0xb1, 0xfc, 0x5c, 0x72, 0x4b, 0x9a, 0x0f, 0x47, 0x6d, 0xb3, 0xe3,
         0xe0, 0x1c, 0xca, 0x4e, 0xa4, 0xfc, 0x06, 0xfa, 0xdc, 0x6a, 0xb0, 0x65, 0x96, 0x70,
         0xbf, 0xab, 0x6b, 0x0a, 0x8d, 0x52, 0x88, 0x92, 0x21, 0xee, 0xd7, 0xa3, 0x0a, 0x20,
         0xb7, 0xf2, 0x3d, 0xa5, 0x8d, 0x41, 0x7c, 0xb4] \<and>
   blake2b_run blake2b_New [replicate 256 1 @ replicate 129 0] \<noteq>
     blake2b_run blake2b_New [replicate 256 1, replicate 129 0] \<and>
   blake2s_run blake2s_New [replicate 128 0 @ replicate 65 0] = None \<and>
   blake2s_run blake2s_New [replicate 128 0, replicate 65 0] \<noteq> None"
proof -
  have "blake2b_run blake2b_New [replicate 256 1 @ replicate 129 0] \<noteq>
     blake2b_run blake2b_New [replicate 256 1, replicate 129 0]"
    unfolding blake2b_single_Write_digest blake2b_split_Write_digest by simp
  then show ?thesis
    using blake2b_single_Write_digest blake2b_split_Write_digest blake2s_split_single_Write
    by blast
qed

end
